theory Spec2Isabelle
  imports Complex_Main "HOL-Library.Multiset" "HOL-Library.Monad_Syntax" "HOL-Library.AList"
begin

section \<open>Strings of the host language\<close>

text \<open>
  The program is TypeScript. Its strings are sequences of UTF-16 code units; the model
  takes them as \<^typ>\<open>string\<close>, lists of \<^typ>\<open>char\<close>, and so covers the code units
  below 256 (Latin-1). On that range \<open>toLowerCase\<close> maps one unit to one unit, and the
  white space of \<open>\s\<close> and of \<open>trim\<close> is TAB, LF, VT, FF, CR, space and NBSP.
\<close>

definition isWhiteSpace :: "char \<Rightarrow> bool" where
  "isWhiteSpace c =
     (c \<in> {CHR 0x09, CHR 0x0A, CHR 0x0B, CHR 0x0C, CHR 0x0D, CHR 0x20, CHR 0xA0})"

definition isUpperAZ :: "char \<Rightarrow> bool" where
  "isUpperAZ c = (65 \<le> (of_char c :: nat) \<and> (of_char c :: nat) \<le> 90)"

definition isLowerAZ :: "char \<Rightarrow> bool" where
  "isLowerAZ c = (97 \<le> (of_char c :: nat) \<and> (of_char c :: nat) \<le> 122)"

definition isDigit :: "char \<Rightarrow> bool" where
  "isDigit c = (48 \<le> (of_char c :: nat) \<and> (of_char c :: nat) \<le> 57)"

text \<open>The class \<open>\w\<close> of regular expressions: letters, digits and the underscore.\<close>

definition isWordChar :: "char \<Rightarrow> bool" where
  "isWordChar c = (isUpperAZ c \<or> isLowerAZ c \<or> isDigit c \<or> c = CHR ''_'')"

text \<open>\<open>toLowerCase\<close> on one code unit: A to Z, and the Latin-1 capitals except the
  multiplication sign, move up by 32.\<close>

definition toLowerChar :: "char \<Rightarrow> char" where
  "toLowerChar c =
     (let n = (of_char c :: nat)
      in if (65 \<le> n \<and> n \<le> 90) \<or> (192 \<le> n \<and> n \<le> 222 \<and> n \<noteq> 215)
         then char_of (n + 32) else c)"

definition toLowerCase :: "string \<Rightarrow> string" where
  "toLowerCase s = map toLowerChar s"

text \<open>\<open>s.trim()\<close>: white space removed at both ends.\<close>

definition trim :: "string \<Rightarrow> string" where
  "trim s = rev (dropWhile isWhiteSpace (rev (dropWhile isWhiteSpace s)))"

text \<open>\<open>s.substring(a, b)\<close> for \<open>a \<le> b\<close>.\<close>

definition substring :: "string \<Rightarrow> nat \<Rightarrow> nat \<Rightarrow> string" where
  "substring s a b = take (b - a) (drop a s)"

text \<open>\<open>s.indexOf(pat)\<close>: the least index at which \<open>pat\<close> starts in \<open>s\<close>, or \<open>-1\<close>.\<close>

primrec indexOf_from :: "string \<Rightarrow> string \<Rightarrow> nat \<Rightarrow> int" where
  "indexOf_from [] pat k = (if pat = [] then int k else - 1)"
| "indexOf_from (c # cs) pat k =
     (if take (length pat) (c # cs) = pat then int k else indexOf_from cs pat (Suc k))"

definition indexOf :: "string \<Rightarrow> string \<Rightarrow> int" where
  "indexOf s pat = indexOf_from s pat 0"

text \<open>\<open>s.split(sep)\<close> for a string separator: the pieces between the occurrences of
  \<open>sep\<close>, found from left to right without overlap; an empty separator splits into
  single units.\<close>

function split_acc :: "string \<Rightarrow> string \<Rightarrow> string \<Rightarrow> string list" where
  "split_acc sep acc [] = [acc]"
| "split_acc sep acc (c # cs) =
     (if sep \<noteq> [] \<and> take (length sep) (c # cs) = sep
      then acc # split_acc sep [] (drop (length sep) (c # cs))
      else split_acc sep (acc @ [c]) cs)"
  by pat_completeness auto
termination
  by (relation "measure (\<lambda>(sep, acc, s). length s)") auto

definition split :: "string \<Rightarrow> string \<Rightarrow> string list" where
  "split s sep = (if sep = [] then map (\<lambda>c. [c]) s else split_acc sep [] s)"

text \<open>\<open>xs.join(sep)\<close>.\<close>

fun join :: "string list \<Rightarrow> string \<Rightarrow> string" where
  "join [] sep = []"
| "join [x] sep = x"
| "join (x # y # ys) sep = x @ sep @ join (y # ys) sep"

section \<open>Regular expressions\<close>

text \<open>
  The regular expressions of the program are values of \<open>re\<close>, run by a backtracking
  matcher. A matcher state is the position reached and the text of capture group 1.
  \<open>run r s st\<close> lists the states in which \<open>r\<close> can stop when started in \<open>st\<close>, in the
  order in which backtracking tries them: a greedy star tries one more round before
  it stops, a round that consumes nothing is rejected, and an alternative tries its
  left branch first.
\<close>

type_synonym mstate = "nat \<times> string option"

datatype re =
    Eps
  | Cls "char \<Rightarrow> bool"
  | Seq re re
  | Alt re re
  | Star re
  | Group re
  | WordB

definition Chr :: "char \<Rightarrow> re" where
  "Chr c = Cls (\<lambda>x. x = c)"

definition Plus :: "re \<Rightarrow> re" where
  "Plus r = Seq r (Star r)"

primrec Lit :: "string \<Rightarrow> re" where
  "Lit [] = Eps"
| "Lit (c # cs) = Seq (Chr c) (Lit cs)"

primrec star_iter :: "(mstate \<Rightarrow> mstate list) \<Rightarrow> nat \<Rightarrow> mstate \<Rightarrow> mstate list" where
  "star_iter f 0 st = [st]"
| "star_iter f (Suc n) st =
     concat (map (\<lambda>st'. if fst st < fst st' then star_iter f n st' else []) (f st)) @ [st]"

definition wordBefore :: "string \<Rightarrow> nat \<Rightarrow> bool" where
  "wordBefore s i = (0 < i \<and> i \<le> length s \<and> isWordChar (s ! (i - 1)))"

definition wordAt :: "string \<Rightarrow> nat \<Rightarrow> bool" where
  "wordAt s i = (i < length s \<and> isWordChar (s ! i))"

primrec run :: "re \<Rightarrow> string \<Rightarrow> mstate \<Rightarrow> mstate list" where
  "run Eps s st = [st]"
| "run (Cls P) s st =
     (if fst st < length s \<and> P (s ! fst st) then [(Suc (fst st), snd st)] else [])"
| "run (Seq a b) s st = concat (map (run b s) (run a s st))"
| "run (Alt a b) s st = run a s st @ run b s st"
| "run (Star a) s st = star_iter (run a s) (length s) st"
| "run (Group a) s st =
     map (\<lambda>st'. (fst st', Some (take (fst st' - fst st) (drop (fst st) s)))) (run a s st)"
| "run WordB s st = (if wordBefore s (fst st) \<noteq> wordAt s (fst st) then [st] else [])"

text \<open>One match: where it starts, where it ends, and capture group 1.\<close>

type_synonym rmatch = "nat \<times> nat \<times> string option"

text \<open>\<open>search_from r s i n\<close> tries the start positions \<open>i, i + 1, ...\<close>, \<open>n\<close> of them, and
  returns the first match; \<open>search r s from\<close> is what \<open>exec\<close> does with \<open>lastIndex = from\<close>.\<close>

primrec search_from :: "re \<Rightarrow> string \<Rightarrow> nat \<Rightarrow> nat \<Rightarrow> rmatch option" where
  "search_from r s i 0 = None"
| "search_from r s i (Suc n) =
     (case run r s (i, None) of
        [] \<Rightarrow> search_from r s (Suc i) n
      | st # _ \<Rightarrow> Some (i, fst st, snd st))"

definition search :: "re \<Rightarrow> string \<Rightarrow> nat \<Rightarrow> rmatch option" where
  "search r s from = search_from r s from (Suc (length s) - from)"

text \<open>All matches of a global regular expression, from left to right: the next search
  starts where the last match ended, one further on when that match was empty.\<close>

function match_all_from :: "re \<Rightarrow> string \<Rightarrow> nat \<Rightarrow> rmatch list" where
  "match_all_from r s from =
     (case search r s from of
        None \<Rightarrow> []
      | Some m \<Rightarrow> m # match_all_from r s (if fst m < fst (snd m) then fst (snd m) else Suc (fst m)))"
  by pat_completeness auto
termination
proof (relation "measure (\<lambda>(r, s, from). Suc (length s) - from)")
  show "wf (measure (\<lambda>(r, s, from). Suc (length s) - from))"
    by simp
next
  fix r :: re and s :: string and "from" :: nat and m :: rmatch
  assume found: "search r s from = Some m"
  have bounds: "i \<le> fst m' \<and> fst m' < i + n"
    if "search_from r s i n = Some m'" for i n m'
    using that
  proof (induction n arbitrary: i)
    case 0
    then show ?case by simp
  next
    case (Suc n)
    show ?case
    proof (cases "run r s (i, None)")
      case Nil
      with Suc.prems have "search_from r s (Suc i) n = Some m'" by simp
      from Suc.IH [OF this] show ?thesis by simp
    next
      case (Cons st sts)
      with Suc.prems show ?thesis by auto
    qed
  qed
  from bounds [of "from" "Suc (length s) - from" m] found
  have "from \<le> fst m" and "fst m < from + (Suc (length s) - from)"
    by (simp_all add: search_def)
  then show "((r, s, if fst m < fst (snd m) then fst (snd m) else Suc (fst m)), (r, s, from))
      \<in> measure (\<lambda>(r, s, from). Suc (length s) - from)"
    by auto
qed

declare match_all_from.simps [simp del]

definition match_all :: "re \<Rightarrow> string \<Rightarrow> rmatch list" where
  "match_all r s = match_all_from r s 0"

text \<open>\<open>s.replace(r, rep)\<close> for a global \<open>r\<close> and a replacement string without
  patterns: the text between the matches is kept, each match becomes \<open>rep\<close>.\<close>

fun splice :: "string \<Rightarrow> string \<Rightarrow> nat \<Rightarrow> rmatch list \<Rightarrow> string" where
  "splice s rep pos [] = drop pos s"
| "splice s rep pos (m # ms) =
     take (fst m - pos) (drop pos s) @ rep @ splice s rep (fst (snd m)) ms"

definition replace_all :: "string \<Rightarrow> re \<Rightarrow> string \<Rightarrow> string" where
  "replace_all s r rep = splice s rep 0 (match_all r s)"

section \<open>Locating suggested changes (ai-analysis.ts)\<close>

text \<open>A \<open>TextPosition\<close>. The fields \<open>end\<close> and \<open>paragraph\<close> carry a prime here, the plain
  words being keywords; \<open>line\<close>, \<open>column\<close> and \<open>paragraph\<close> are optional.\<close>

record TextPosition =
  start :: int
  end' :: int
  line :: "int option"
  column :: "int option"
  paragraph' :: "int option"

datatype change_type = REPLACEMENT | INSERTION | DELETION | HIGHLIGHT

datatype change_severity = ChangeCRITICAL | ChangeHIGH | ChangeMEDIUM | ChangeLOW

text \<open>A suggested change as the response gives it, without its position.\<close>

record SuggestedChangeIn =
  type :: change_type
  originalText :: "string option"
  suggestedText :: "string option"
  reason :: string
  severity :: change_severity
  ruleId :: "string option"
  confidence :: real

record SuggestedChange = SuggestedChangeIn +
  position :: TextPosition

text \<open>\<open>/\s+/g\<close>\<close>

definition re_spaces :: re where
  "re_spaces = Plus (Cls isWhiteSpace)"

definition normalizeText :: "string \<Rightarrow> string" where
  "normalizeText text = trim (replace_all (toLowerCase text) re_spaces '' '')"

text \<open>The loop of \<open>fuzzyFindPosition\<close> that maps the index found in the normalized text
  back to the original text. \<open>None\<close> stands for a loop that does not return.\<close>

partial_function (option) mapBack :: "string \<Rightarrow> int \<Rightarrow> nat \<Rightarrow> int \<Rightarrow> nat option" where
  "mapBack fullText index originalIndex normalizedIndex =
     (if normalizedIndex < index \<and> originalIndex < length fullText then
        let char = [fullText ! originalIndex];
            normalizedChar = normalizeText char
        in mapBack fullText index (originalIndex + 1)
             (if normalizedChar \<noteq> [] then normalizedIndex + int (length normalizedChar)
              else normalizedIndex)
      else Some originalIndex)"

declare mapBack.simps [code]

definition fuzzyFindPosition :: "string \<Rightarrow> string \<Rightarrow> int option" where
  "fuzzyFindPosition searchText fullText =
     (let normalizedSearch = normalizeText searchText;
          normalizedFull = normalizeText fullText;
          index = indexOf normalizedFull normalizedSearch
      in if index \<noteq> - 1
         then map_option int (mapBack fullText index 0 0)
         else Some (- 1))"

definition notFound :: TextPosition where
  "notFound = \<lparr>start = 0, end' = 0, line = None, column = None, paragraph' = None\<rparr>"

definition findTextPosition :: "string \<Rightarrow> string \<Rightarrow> TextPosition option" where
  "findTextPosition searchText fullText =
     (if searchText = [] then Some notFound
      else do {
        index \<leftarrow> (let index = indexOf fullText searchText
                  in if index = - 1 then fuzzyFindPosition searchText fullText
                     else Some index);
        if index = - 1 then Some notFound
        else
          let start = index;
              end = index + int (length searchText);
              beforeText = take (nat start) fullText;
              lines = split beforeText ''\<newline>'';
              line = int (length lines);
              column = int (length (last lines)) + 1
          in Some \<lparr>start = start, end' = end, line = Some line, column = Some column,
                    paragraph' = None\<rparr>
      })"

definition mapChangesToDocument ::
  "SuggestedChangeIn list \<Rightarrow> string \<Rightarrow> SuggestedChange list option" where
  "mapChangesToDocument changes contractContent =
     those (map (\<lambda>change.
        do {
          position \<leftarrow> findTextPosition
            (case originalText change of None \<Rightarrow> [] | Some t \<Rightarrow> t) contractContent;
          Some (SuggestedChangeIn.extend change (SuggestedChange.fields position))
        }) changes)"

text \<open>\<open>pat\<close> occurs verbatim in \<open>s\<close> at index \<open>i\<close>.\<close>

definition occursAt :: "string \<Rightarrow> string \<Rightarrow> nat \<Rightarrow> bool" where
  "occursAt s pat i = (i + length pat \<le> length s \<and> take (length pat) (drop i s) = pat)"

section \<open>Editor states (document-processor.ts)\<close>

text \<open>\<open>format\<close> of a node is a string or a number.\<close>

datatype node_format = FormatString string | FormatNumber int

text \<open>A \<open>LexicalNode\<close>; every field but \<open>type\<close> is optional.\<close>

datatype LexicalNode = LexicalNode
  (node_children: "LexicalNode list option")
  (node_direction: "string option")
  (node_format: "node_format option")
  (node_indent: "int option")
  (node_type: string)
  (node_version: "int option")
  (node_text: "string option")
  (node_detail: "int option")
  (node_mode: "string option")
  (node_style: "string option")

record LexicalRoot =
  root_children :: "LexicalNode list"
  root_direction :: string
  root_format :: string
  root_indent :: int
  root_type :: string
  root_version :: int

record LexicalState =
  root :: LexicalRoot

text \<open>The text node and the paragraph node that both converters build.\<close>

definition textNode :: "string \<Rightarrow> LexicalNode" where
  "textNode t = LexicalNode None None (Some (FormatNumber 0)) None ''text'' (Some 1)
     (Some t) (Some 0) (Some ''normal'') (Some '''')"

definition paragraphNode :: "LexicalNode list \<Rightarrow> LexicalNode" where
  "paragraphNode kids = LexicalNode (Some kids) (Some ''ltr'') (Some (FormatString ''''))
     (Some 0) ''paragraph'' (Some 1) None None None None"

definition rootOf :: "LexicalNode list \<Rightarrow> LexicalState" where
  "rootOf kids = \<lparr>root = \<lparr>root_children = kids, root_direction = ''ltr'', root_format = '''',
     root_indent = 0, root_type = ''root'', root_version = 1\<rparr>\<rparr>"

text \<open>\<open>/<[^>]*>/g\<close>\<close>

definition re_tag :: re where
  "re_tag = Seq (Chr CHR ''<'') (Seq (Star (Cls (\<lambda>c. c \<noteq> CHR ''>''))) (Chr CHR ''>''))"

definition htmlToLexical :: "string \<Rightarrow> LexicalState" where
  "htmlToLexical html =
     (let textContent = replace_all html re_tag []
      in rootOf [paragraphNode [textNode textContent]])"

definition textToLexical :: "string \<Rightarrow> LexicalState" where
  "textToLexical text =
     (let paragraphs = filter (\<lambda>p. trim p \<noteq> []) (split text ''\<newline>\<newline>'');
          children = map (\<lambda>paragraph. paragraphNode [textNode (trim paragraph)]) paragraphs
      in rootOf children)"

text \<open>\<open>extractText\<close>, the local function of \<open>lexicalToText\<close>. The guard of
  \<open>lexicalToText\<close> on a missing root or missing children never fires on a
  \<open>LexicalState\<close>, whose root and children are not optional.\<close>

fun extractText :: "LexicalNode \<Rightarrow> string" where
  "extractText (LexicalNode kids dir fmt ind ty ver txt det mode sty) =
     (if ty = ''text'' then (case txt of None \<Rightarrow> [] | Some t \<Rightarrow> t)
      else case kids of
             Some nodes \<Rightarrow> concat (map extractText nodes)
           | None \<Rightarrow> [])"

definition lexicalToText :: "LexicalState \<Rightarrow> string" where
  "lexicalToText lexicalState =
     join (map extractText (root_children (root lexicalState))) ''\<newline>\<newline>''"

text \<open>What the specification says \<open>htmlToLexical\<close> removes: every \<open><\<close> that has a \<open>>\<close> after
  it, together with everything up to and including the next \<open>>\<close>.\<close>

function removeTags :: "string \<Rightarrow> string" where
  "removeTags [] = []"
| "removeTags (c # cs) =
     (if c = CHR ''<'' \<and> CHR ''>'' \<in> set cs
      then removeTags (tl (dropWhile (\<lambda>x. x \<noteq> CHR ''>'') cs))
      else c # removeTags cs)"
  by pat_completeness auto
termination
proof (relation "measure length")
  show "wf (measure length)" by simp
next
  fix c :: char and cs :: string
  have "length (tl (dropWhile (\<lambda>x. x \<noteq> CHR ''>'') cs)) \<le> length cs"
    using length_dropWhile_le [of "\<lambda>x. x \<noteq> CHR ''>''" cs] by simp
  then show "(tl (dropWhile (\<lambda>x. x \<noteq> CHR ''>'') cs), c # cs) \<in> measure length"
    by simp
next
  fix c :: char and cs :: string
  show "(cs, c # cs) \<in> measure length" by simp
qed

text \<open>The separator of paragraphs, two line feeds, named for the proofs.\<close>

definition nn :: string where
  "nn = [CHR 0x0A, CHR 0x0A]"

section \<open>The analysis prompt (ai-analysis.ts)\<close>

datatype Severity = CRITICAL | HIGH | MEDIUM | LOW | INFO

datatype RuleType = CLAUSE_CHECK | RISK_ASSESSMENT | LANGUAGE_PREFERENCE | MISSING_PROVISION
  | COMPLIANCE_CHECK | TERM_EXTRACTION | DEADLINE_CHECK

text \<open>The fields of a rule and of a playbook that \<open>buildAnalysisPrompt\<close> reads.\<close>

record Rule =
  rule_id :: string
  rule_name :: string
  rule_type :: RuleType
  aiPrompt :: string
  rule_severity :: Severity
  preferredLanguage :: "string option"
  orderIndex :: int
  isActive :: bool

record Playbook =
  playbook_name :: string
  description :: "string option"
  contractType :: "string option"
  rules :: "Rule list"

text \<open>An enum value in a template string is its name.\<close>

fun showSeverity :: "Severity \<Rightarrow> string" where
  "showSeverity CRITICAL = ''CRITICAL''"
| "showSeverity HIGH = ''HIGH''"
| "showSeverity MEDIUM = ''MEDIUM''"
| "showSeverity LOW = ''LOW''"
| "showSeverity INFO = ''INFO''"

fun showRuleType :: "RuleType \<Rightarrow> string" where
  "showRuleType CLAUSE_CHECK = ''CLAUSE_CHECK''"
| "showRuleType RISK_ASSESSMENT = ''RISK_ASSESSMENT''"
| "showRuleType LANGUAGE_PREFERENCE = ''LANGUAGE_PREFERENCE''"
| "showRuleType MISSING_PROVISION = ''MISSING_PROVISION''"
| "showRuleType COMPLIANCE_CHECK = ''COMPLIANCE_CHECK''"
| "showRuleType TERM_EXTRACTION = ''TERM_EXTRACTION''"
| "showRuleType DEADLINE_CHECK = ''DEADLINE_CHECK''"

text \<open>A natural number in a template string is its decimal numeral.\<close>

fun showNat :: "nat \<Rightarrow> string" where
  "showNat n = (if n < 10 then [char_of (48 + n)]
                else showNat (n div 10) @ [char_of (48 + n mod 10)])"

declare showNat.simps [simp del]

text \<open>The number that a decimal numeral stands for.\<close>

definition decimalValue :: "string \<Rightarrow> nat" where
  "decimalValue s = foldl (\<lambda>a c. 10 * a + (of_char c - 48)) 0 s"

text \<open>\<open>xs.sort(cmp)\<close>: the sort is stable, and for a comparator that is a consistent
  order its result is the one of insertion from the right, each element going before
  the first one that it does not come after.\<close>

fun insert_by :: "('a \<Rightarrow> 'a \<Rightarrow> int) \<Rightarrow> 'a \<Rightarrow> 'a list \<Rightarrow> 'a list" where
  "insert_by cmp x [] = [x]"
| "insert_by cmp x (y # ys) = (if cmp x y \<le> 0 then x # y # ys else y # insert_by cmp x ys)"

definition sort_by :: "('a \<Rightarrow> 'a \<Rightarrow> int) \<Rightarrow> 'a list \<Rightarrow> 'a list" where
  "sort_by cmp xs = foldr (insert_by cmp) xs []"

fun severityOrder :: "Severity \<Rightarrow> int" where
  "severityOrder CRITICAL = 0"
| "severityOrder HIGH = 1"
| "severityOrder MEDIUM = 2"
| "severityOrder LOW = 3"
| "severityOrder INFO = 4"

text \<open>The comparator of the sort.\<close>

definition compareRules :: "Rule \<Rightarrow> Rule \<Rightarrow> int" where
  "compareRules a b =
     (let severityDiff = severityOrder (rule_severity a) - severityOrder (rule_severity b)
      in if severityDiff \<noteq> 0 then severityDiff else orderIndex a - orderIndex b)"

definition sortedRules :: "Playbook \<Rightarrow> Rule list" where
  "sortedRules playbook = sort_by compareRules (filter isActive (rules playbook))"

text \<open>What the prompt holds before the rules.\<close>

definition promptHead :: "string \<Rightarrow> Playbook \<Rightarrow> string" where
  "promptHead contractContent playbook =
     ''**CONTRACT TO ANALYZE:**\<newline>\<newline>'' @ contractContent @ ''\<newline>\<newline>''
     @ ''**PLAYBOOK: '' @ playbook_name playbook @ ''**\<newline>''
     @ (case description playbook of
          None \<Rightarrow> []
        | Some d \<Rightarrow> if d = [] then [] else ''Description: '' @ d @ ''\<newline>'')
     @ (case contractType playbook of
          None \<Rightarrow> []
        | Some c \<Rightarrow> if c = [] then [] else ''Contract Type: '' @ c @ ''\<newline>'')
     @ ''\<newline>**REVIEW RULES:**\<newline>\<newline>''"

text \<open>What one round of \<open>forEach\<close> appends for the rule at \<open>index\<close>.\<close>

definition ruleBlock :: "nat \<Rightarrow> Rule \<Rightarrow> string" where
  "ruleBlock index rule =
     ''**Rule '' @ showNat (index + 1) @ '': '' @ rule_name rule @ ''** (ID: '' @ rule_id rule
       @ '')\<newline>''
     @ ''Type: '' @ showRuleType (rule_type rule) @ ''\<newline>''
     @ ''Severity: '' @ showSeverity (rule_severity rule) @ ''\<newline>''
     @ ''Instructions: '' @ aiPrompt rule @ ''\<newline>''
     @ (case preferredLanguage rule of
          None \<Rightarrow> []
        | Some l \<Rightarrow> if l = [] then []
                    else ''Preferred Language/Format:\<newline>'' @ l @ ''\<newline>'')
     @ ''\<newline>''"

text \<open>What the prompt holds after the rules.\<close>

definition promptTail :: string where
  "promptTail =
     ''\<newline>**ANALYSIS INSTRUCTIONS:**\<newline>''
     @ ''1. Review the contract against each active rule\<newline>''
     @ ''2. Identify specific text that violates or could improve compliance\<newline>''
     @ ''3. Provide exact replacement text following legal best practices\<newline>''
     @ ''4. Calculate risk score (0-10) considering: liability, enforceability, compliance gaps\<newline>''
     @ ''5. Calculate compliance score (0-10) for GDPR, SOC2, and industry standards\<newline>''
     @ ''6. Extract key terms and identify missing critical provisions\<newline>\<newline>''
     @ ''Analyze thoroughly and provide specific, actionable recommendations.''"

definition buildAnalysisPrompt :: "string \<Rightarrow> Playbook \<Rightarrow> string" where
  "buildAnalysisPrompt contractContent playbook =
     (let sorted = sortedRules playbook
      in promptHead contractContent playbook
         @ concat (map (\<lambda>(index, rule). ruleBlock index rule) (enumerate 0 sorted))
         @ promptTail)"

section \<open>Parsing the response (ai-analysis.ts)\<close>

text \<open>
  The values that \<open>JSON.parse\<close> returns and that the program then works on. A number is a
  double: the model keeps the reals, the two infinities and NaN, which is all that
  comparing, \<open>Math.min\<close> and \<open>Math.max\<close> depend on; an object is the list of its own
  properties.
\<close>

datatype jsnum = NaN | NegInf | Fin real | PosInf

datatype jsval =
    JUndefined
  | JNull
  | JBool bool
  | JNumber jsnum
  | JString string
  | JArray "jsval list"
  | JObject "(string \<times> jsval) list"

datatype parse_error = NoJSONFound | JSONSyntaxError | InvalidStructure | TypeError

fun num_le :: "jsnum \<Rightarrow> jsnum \<Rightarrow> bool" where
  "num_le NaN _ = False"
| "num_le _ NaN = False"
| "num_le NegInf _ = True"
| "num_le _ PosInf = True"
| "num_le (Fin x) (Fin y) = (x \<le> y)"
| "num_le _ _ = False"

text \<open>\<open>Math.min\<close> and \<open>Math.max\<close> of two numbers: NaN when either is NaN.\<close>

fun isNaN :: "jsnum \<Rightarrow> bool" where
  "isNaN NaN = True"
| "isNaN _ = False"

definition math_min :: "jsnum \<Rightarrow> jsnum \<Rightarrow> jsnum" where
  "math_min a b = (if isNaN a \<or> isNaN b then NaN else if num_le a b then a else b)"

definition math_max :: "jsnum \<Rightarrow> jsnum \<Rightarrow> jsnum" where
  "math_max a b = (if isNaN a \<or> isNaN b then NaN else if num_le a b then b else a)"

text \<open>What \<open>if\<close>, \<open>!\<close> and \<open>||\<close> take for true.\<close>

fun truthy :: "jsval \<Rightarrow> bool" where
  "truthy JUndefined = False"
| "truthy JNull = False"
| "truthy (JBool b) = b"
| "truthy (JNumber n) = (\<not> isNaN n \<and> n \<noteq> Fin 0)"
| "truthy (JString s) = (s \<noteq> [])"
| "truthy (JArray _) = True"
| "truthy (JObject _) = True"

text \<open>\<open>a || b\<close>\<close>

definition or_else :: "jsval \<Rightarrow> jsval \<Rightarrow> jsval" where
  "or_else a b = (if truthy a then a else b)"

text \<open>\<open>typeof v === 'number'\<close>\<close>

fun isNumber :: "jsval \<Rightarrow> bool" where
  "isNumber (JNumber _) = True"
| "isNumber _ = False"

text \<open>The own property \<open>k\<close> of an object, \<open>undefined\<close> when it has none.\<close>

definition ownProp :: "(string \<times> jsval) list \<Rightarrow> string \<Rightarrow> jsval" where
  "ownProp kvs k = (case map_of kvs k of None \<Rightarrow> JUndefined | Some v \<Rightarrow> v)"

text \<open>Reading the property \<open>k\<close> of a value, for the keys that the program reads, none of
  which a prototype defines: a \<open>TypeError\<close> on \<open>null\<close> and \<open>undefined\<close>, and \<open>undefined\<close> on
  the other values that are not objects.\<close>

fun getProp :: "jsval \<Rightarrow> string \<Rightarrow> parse_error + jsval" where
  "getProp JUndefined k = Inl TypeError"
| "getProp JNull k = Inl TypeError"
| "getProp (JObject kvs) k = Inr (ownProp kvs k)"
| "getProp _ k = Inr JUndefined"

text \<open>Going on after a step that may throw.\<close>

definition bindE :: "'e + 'a \<Rightarrow> ('a \<Rightarrow> 'e + 'b) \<Rightarrow> 'e + 'b" where
  "bindE m f = (case m of Inl e \<Rightarrow> Inl e | Inr x \<Rightarrow> f x)"

text \<open>\<open>ToNumber\<close>, which \<open>Math.min\<close> applies to its arguments. On a string, an array or an
  object it follows the rules of the language for numeric strings and for conversion to
  a primitive, which may throw a \<open>TypeError\<close>; those rules are the parameter \<open>conv\<close>.\<close>

fun toNumber :: "(jsval \<Rightarrow> parse_error + jsnum) \<Rightarrow> jsval \<Rightarrow> parse_error + jsnum" where
  "toNumber conv JUndefined = Inr NaN"
| "toNumber conv JNull = Inr (Fin 0)"
| "toNumber conv (JBool b) = Inr (Fin (if b then 1 else 0))"
| "toNumber conv (JNumber n) = Inr n"
| "toNumber conv v = conv v"

text \<open>\<open>/\{[\s\S]*\}/\<close>\<close>

definition re_json :: re where
  "re_json = Seq (Chr CHR ''{'') (Seq (Star (Cls (\<lambda>c. True))) (Chr CHR ''}''))"

text \<open>\<open>jsonMatch\<close>: the first match of the expression in the response, if there is one.\<close>

definition jsonMatch :: "string \<Rightarrow> string option" where
  "jsonMatch responseText =
     map_option (\<lambda>m. substring responseText (fst m) (fst (snd m))) (search re_json responseText 0)"

text \<open>\<open>Math.max(0, Math.min(10, v))\<close>\<close>

definition clampScore :: "(jsval \<Rightarrow> parse_error + jsnum) \<Rightarrow> jsval \<Rightarrow> parse_error + jsval" where
  "clampScore conv v =
     bindE (toNumber conv v) (\<lambda>n. Inr (JNumber (math_max (Fin 0) (math_min (Fin 10) n))))"

text \<open>
  \<open>parseAIResponse\<close>. \<open>JSON.parse\<close> is the parameter \<open>JSON_parse\<close>, \<open>None\<close> where it throws
  a \<open>SyntaxError\<close>. Every error leaves the function as an \<open>Error\<close> whose message begins
  \<open>Failed to parse AI response\<close>; the model returns which error it was. The result is the
  parsed object after the six assignments. Only an object passes the check of the
  summary, so the last case is never reached.
\<close>

definition parseAIResponse ::
  "(string \<Rightarrow> jsval option) \<Rightarrow> (jsval \<Rightarrow> parse_error + jsnum) \<Rightarrow> string
     \<Rightarrow> parse_error + jsval" where
  "parseAIResponse JSON_parse conv responseText =
     (case jsonMatch responseText of
        None \<Rightarrow> Inl NoJSONFound
      | Some json \<Rightarrow>
     (case JSON_parse json of
        None \<Rightarrow> Inl JSONSyntaxError
      | Some analysis \<Rightarrow>
          bindE (getProp analysis ''summary'') (\<lambda>summary.
          bindE (getProp analysis ''riskScore'') (\<lambda>riskScore.
            if \<not> truthy summary \<or> \<not> isNumber riskScore then Inl InvalidStructure
            else
              (case analysis of
                 JObject kvs \<Rightarrow>
                   let a1 = AList.update ''changes''
                              (or_else (ownProp kvs ''changes'') (JArray [])) kvs;
                       a2 = AList.update ''missingClauses''
                              (or_else (ownProp a1 ''missingClauses'') (JArray [])) a1;
                       a3 = AList.update ''risks''
                              (or_else (ownProp a2 ''risks'') (JArray [])) a2;
                       a4 = AList.update ''keyTerms''
                              (or_else (ownProp a3 ''keyTerms'') (JArray [])) a3
                   in bindE (clampScore conv (ownProp a4 ''riskScore'')) (\<lambda>risk.
                        let a5 = AList.update ''riskScore'' risk a4
                        in bindE (clampScore conv
                                    (or_else (ownProp a5 ''complianceScore'') (JNumber (Fin 5))))
                             (\<lambda>compliance.
                                Inr (JObject (AList.update ''complianceScore'' compliance a5))))
               | _ \<Rightarrow> Inl InvalidStructure)))))"

section \<open>Key terms (document-processor.ts)\<close>

text \<open>\<open>/"([^"]+)"\s+(?:means|shall mean)/g\<close>\<close>

definition definedTermsPattern :: re where
  "definedTermsPattern =
     Seq (Chr (CHR 0x22))
    (Seq (Group (Plus (Cls (\<lambda>c. c \<noteq> CHR 0x22))))
    (Seq (Chr (CHR 0x22))
    (Seq (Plus (Cls isWhiteSpace))
         (Alt (Lit ''means'') (Lit ''shall mean'')))))"

text \<open>\<open>/\b[A-Z][a-z]+(?:\s+[A-Z][a-z]+)*\b/g\<close>\<close>

definition capitalizedWord :: re where
  "capitalizedWord = Seq (Cls isUpperAZ) (Plus (Cls isLowerAZ))"

definition capitalizedPattern :: re where
  "capitalizedPattern =
     Seq WordB
    (Seq capitalizedWord
    (Seq (Star (Seq (Plus (Cls isWhiteSpace)) capitalizedWord))
         WordB))"

text \<open>\<open>termCounts\<close>, an object used as a table from terms to counts: its keys in the order
  in which they were first assigned, which is the order of \<open>Object.entries\<close>. No key is the
  name of a property of the prototype, since every key begins with a capital letter.\<close>

fun countTerm :: "(string \<times> nat) list \<Rightarrow> string \<Rightarrow> (string \<times> nat) list" where
  "countTerm [] term = [(term, 1)]"
| "countTerm ((k, n) # rest) term =
     (if k = term then (k, n + 1) # rest else (k, n) # countTerm rest term)"

definition termCounts :: "string list \<Rightarrow> (string \<times> nat) list" where
  "termCounts capitalizedTerms =
     foldl (\<lambda>counts term. if length term > 3 then countTerm counts term else counts)
       [] capitalizedTerms"

text \<open>\<open>[...new Set(xs)]\<close>: the elements of \<open>xs\<close> in the order of their first occurrence.\<close>

definition newSet :: "string list \<Rightarrow> string list" where
  "newSet xs = foldl (\<lambda>seen x. if x \<in> set seen then seen else seen @ [x]) [] xs"

text \<open>\<open>extractKeyTerms\<close>. Group 1 takes part in every match of the first pattern, so
  \<open>match[1]\<close> is a string.\<close>

definition extractKeyTerms :: "string \<Rightarrow> string list" where
  "extractKeyTerms content =
     (let defined = map (\<lambda>m. case snd (snd m) of Some t \<Rightarrow> t | None \<Rightarrow> [])
                      (match_all definedTermsPattern content);
          capitalizedTerms = map (\<lambda>m. substring content (fst m) (fst (snd m)))
                      (match_all capitalizedPattern content);
          frequent = map fst (filter (\<lambda>(term, count). count \<ge> 3) (termCounts capitalizedTerms));
          terms = defined @ frequent
      in take 20 (newSet terms))"

text \<open>What the specification calls a capitalized phrase: capitalized words, each a capital
  letter and then one or more small letters, with white space between them.\<close>

definition capitalizedWordText :: "string \<Rightarrow> bool" where
  "capitalizedWordText w =
     (case w of [] \<Rightarrow> False
      | u # ls \<Rightarrow> isUpperAZ u \<and> ls \<noteq> [] \<and> list_all isLowerAZ ls)"

inductive capitalizedPhrase :: "string \<Rightarrow> bool" where
  one: "capitalizedWordText w \<Longrightarrow> capitalizedPhrase w"
| more: "capitalizedPhrase p \<Longrightarrow> ws \<noteq> [] \<Longrightarrow> list_all isWhiteSpace ws
          \<Longrightarrow> capitalizedWordText w \<Longrightarrow> capitalizedPhrase (p @ ws @ w)"

text \<open>What the specification calls a quoted term followed by \<open>means\<close> or \<open>shall mean\<close>: the
  term stands in the content between double quotes, and white space and then one of the
  two wordings follow the closing quote.\<close>

definition definedIn :: "string \<Rightarrow> string \<Rightarrow> bool" where
  "definedIn content t =
     (\<exists>before ws wording after.
        content = before @ [CHR 0x22] @ t @ [CHR 0x22] @ ws @ wording @ after
        \<and> ws \<noteq> [] \<and> list_all isWhiteSpace ws
        \<and> (wording = ''means'' \<or> wording = ''shall mean''))"

section \<open>Properties of the string functions\<close>

lemma occursAt_Cons_Suc: "occursAt (c # cs) pat (Suc i) = occursAt cs pat i"
  by (simp add: occursAt_def)

lemma occursAt_0: "occursAt s pat 0 = (take (length pat) s = pat)"
proof
  assume "take (length pat) s = pat"
  then have "length (take (length pat) s) = length pat" by simp
  then have "length pat \<le> length s" by simp
  with \<open>take (length pat) s = pat\<close> show "occursAt s pat 0" by (simp add: occursAt_def)
qed (simp add: occursAt_def)

lemma indexOf_from_first:
  "occursAt s pat i \<Longrightarrow> (\<forall>j<i. \<not> occursAt s pat j) \<Longrightarrow> indexOf_from s pat k = int (k + i)"
proof (induction s arbitrary: i k)
  case Nil
  then show ?case by (simp add: occursAt_def)
next
  case (Cons c cs)
  show ?case
  proof (cases "take (length pat) (c # cs) = pat")
    case True
    then have "occursAt (c # cs) pat 0" by (simp only: occursAt_0)
    with Cons.prems(2) have "i = 0" by (cases i) auto
    with True show ?thesis by simp
  next
    case False
    then have "\<not> occursAt (c # cs) pat 0" by (simp only: occursAt_0 not_False_eq_True)
    with Cons.prems(1) obtain i' where i: "i = Suc i'" by (cases i) auto
    from Cons.prems(1) i have a: "occursAt cs pat i'" by (simp add: occursAt_Cons_Suc)
    have b: "\<forall>j<i'. \<not> occursAt cs pat j"
    proof (intro allI impI)
      fix j assume "j < i'"
      then have "Suc j < i" using i by simp
      with Cons.prems(2) have "\<not> occursAt (c # cs) pat (Suc j)" by blast
      then show "\<not> occursAt cs pat j" by (simp add: occursAt_Cons_Suc)
    qed
    from Cons.IH [OF a b, of "Suc k"] False i show ?thesis by simp
  qed
qed

lemma indexOf_from_none:
  "(\<forall>i. \<not> occursAt s pat i) \<Longrightarrow> indexOf_from s pat k = - 1"
proof (induction s arbitrary: k)
  case Nil
  then have "\<not> occursAt [] pat 0" by blast
  then show ?case by (simp add: occursAt_def)
next
  case (Cons c cs)
  from Cons.prems have "\<not> occursAt (c # cs) pat 0" by blast
  then have n: "take (length pat) (c # cs) \<noteq> pat" by (simp only: occursAt_0 not_False_eq_True)
  have "\<forall>i. \<not> occursAt cs pat i"
  proof
    fix i from Cons.prems have "\<not> occursAt (c # cs) pat (Suc i)" by blast
    then show "\<not> occursAt cs pat i" by (simp add: occursAt_Cons_Suc)
  qed
  from Cons.IH [OF this, of "Suc k"] n show ?case by simp
qed

lemma indexOf_from_found:
  "indexOf_from s pat k \<noteq> - 1 \<Longrightarrow>
     \<exists>i. occursAt s pat i \<and> (\<forall>j<i. \<not> occursAt s pat j) \<and> indexOf_from s pat k = int (k + i)"
proof -
  assume a: "indexOf_from s pat k \<noteq> - 1"
  then have "\<exists>i. occursAt s pat i" using indexOf_from_none by blast
  then obtain i where i: "occursAt s pat i" "\<forall>j<i. \<not> occursAt s pat j"
    using exists_least_iff [of "occursAt s pat"] by blast
  with indexOf_from_first [OF i] show ?thesis by blast
qed

lemma indexOf_none_iff: "indexOf s pat = - 1 \<longleftrightarrow> (\<forall>i. \<not> occursAt s pat i)"
proof
  assume "indexOf s pat = - 1"
  show "\<forall>i. \<not> occursAt s pat i"
  proof (rule ccontr)
    assume "\<not> (\<forall>i. \<not> occursAt s pat i)"
    then obtain i where i: "occursAt s pat i" "\<forall>j<i. \<not> occursAt s pat j"
      using exists_least_iff [of "occursAt s pat"] by blast
    from indexOf_from_first [OF i, of 0] \<open>indexOf s pat = - 1\<close> show False
      by (simp add: indexOf_def)
  qed
next
  assume "\<forall>i. \<not> occursAt s pat i"
  then show "indexOf s pat = - 1" by (simp add: indexOf_def indexOf_from_none)
qed

lemma indexOf_first:
  "occursAt s pat i \<Longrightarrow> (\<forall>j<i. \<not> occursAt s pat j) \<Longrightarrow> indexOf s pat = int i"
  using indexOf_from_first [of s pat i 0] by (simp add: indexOf_def)

lemma mapBack_total:
  "\<exists>n. mapBack fullText index originalIndex normalizedIndex = Some n
     \<and> originalIndex \<le> n \<and> n \<le> max originalIndex (length fullText)"
proof (induction "length fullText - originalIndex" arbitrary: originalIndex normalizedIndex)
  case 0
  then show ?case by (subst mapBack.simps) simp
next
  case (Suc d)
  show ?case
  proof (cases "normalizedIndex < index \<and> originalIndex < length fullText")
    case False
    then show ?thesis by (subst mapBack.simps) auto
  next
    case True
    define ni where "ni = (if normalizeText [fullText ! originalIndex] \<noteq> []
        then normalizedIndex + int (length (normalizeText [fullText ! originalIndex]))
        else normalizedIndex)"
    from Suc.hyps(2) have "d = length fullText - (originalIndex + 1)" by simp
    from Suc.hyps(1) [OF this, of ni]
    obtain n where n: "mapBack fullText index (originalIndex + 1) ni = Some n"
      "originalIndex + 1 \<le> n" "n \<le> max (originalIndex + 1) (length fullText)" by blast
    have "mapBack fullText index originalIndex normalizedIndex
        = mapBack fullText index (originalIndex + 1) ni"
      using True by (subst mapBack.simps) (simp add: ni_def Let_def)
    with n True show ?thesis by auto
  qed
qed

lemma fuzzyFindPosition_total: "\<exists>i. fuzzyFindPosition searchText fullText = Some i \<and> - 1 \<le> i"
proof -
  obtain n where "mapBack fullText (indexOf (normalizeText fullText) (normalizeText searchText)) 0 0 = Some n"
    using mapBack_total by blast
  then show ?thesis by (simp add: fuzzyFindPosition_def Let_def)
qed

lemma findTextPosition_total: "\<exists>p. findTextPosition searchText fullText = Some p"
proof -
  obtain i where "fuzzyFindPosition searchText fullText = Some i"
    using fuzzyFindPosition_total by blast
  then show ?thesis by (simp add: findTextPosition_def Let_def)
qed

lemma those_map_Some:
  "(\<forall>x\<in>set xs. \<exists>y. f x = Some y) \<Longrightarrow>
     \<exists>ys. those (map f xs) = Some ys \<and> length ys = length xs
       \<and> (\<forall>i<length xs. f (xs ! i) = Some (ys ! i))"
proof (induction xs)
  case Nil
  then show ?case by simp
next
  case (Cons x xs)
  then obtain ys where ys: "those (map f xs) = Some ys" "length ys = length xs"
    "\<forall>i<length xs. f (xs ! i) = Some (ys ! i)" by auto
  from Cons.prems obtain y where y: "f x = Some y" by auto
  have "\<forall>i<length (x # xs). f ((x # xs) ! i) = Some ((y # ys) ! i)"
    using ys(3) y by (auto simp: nth_Cons split: nat.splits)
  with ys y show ?case by auto
qed

lemma findTextPosition_exact:
  assumes "t \<noteq> []" "occursAt full t k" "\<forall>j<k. \<not> occursAt full t j"
  shows "\<exists>p. findTextPosition t full = Some p \<and> start p = int k \<and> end' p = int k + int (length t)"
  using assms indexOf_first [OF assms(2,3)]
  by (simp add: findTextPosition_def Let_def)

section \<open>Claims about locating changes\<close>

text \<open>
  C1. A suggested change whose \<open>originalText\<close> is non-empty and occurs verbatim in the
  contract content gets, from \<open>mapChangesToDocument\<close>, a position whose \<open>start\<close> is the
  index of the first exact occurrence of \<open>originalText\<close> in the content and whose \<open>end\<close>
  is \<open>start\<close> plus the length of \<open>originalText\<close>.
\<close>

theorem mapChangesToDocument_exact_position:
  assumes "i < length changes"
    and "originalText (changes ! i) = Some t"
    and "t \<noteq> []"
    and "occursAt contractContent t k"
    and "\<forall>j<k. \<not> occursAt contractContent t j"
  shows "\<exists>out. mapChangesToDocument changes contractContent = Some out
           \<and> length out = length changes
           \<and> start (position (out ! i)) = int k
           \<and> end' (position (out ! i)) = int k + int (length t)"
proof -
  let ?f = "\<lambda>change. do {
          position \<leftarrow> findTextPosition
            (case originalText change of None \<Rightarrow> [] | Some t \<Rightarrow> t) contractContent;
          Some (SuggestedChangeIn.extend change (SuggestedChange.fields position))
        }"
  have "\<forall>x\<in>set changes. \<exists>y. ?f x = Some y"
  proof
    fix x :: SuggestedChangeIn
    obtain p where "findTextPosition (case originalText x of None \<Rightarrow> [] | Some t \<Rightarrow> t) contractContent = Some p"
      using findTextPosition_total by blast
    then show "\<exists>y. ?f x = Some y" by simp
  qed
  from those_map_Some [OF this] obtain out where out:
    "those (map ?f changes) = Some out" "length out = length changes"
    "\<forall>i<length changes. ?f (changes ! i) = Some (out ! i)" by blast
  from findTextPosition_exact [OF assms(3,4,5)] obtain p where p:
    "findTextPosition t contractContent = Some p" "start p = int k"
    "end' p = int k + int (length t)" by blast
  from out(3) assms(1) have "?f (changes ! i) = Some (out ! i)" by blast
  with p(1) assms(2) have "out ! i = SuggestedChangeIn.extend (changes ! i) (SuggestedChange.fields p)"
    by simp
  then have "position (out ! i) = p"
    by (simp add: SuggestedChangeIn.extend_def SuggestedChange.fields_def)
  with out p show ?thesis by (simp add: mapChangesToDocument_def)
qed

theorem mapChangesToDocument_exact_position_witness:
  "occursAt ''abb'' ''b'' 1 \<and> \<not> occursAt ''abb'' ''b'' 0
   \<and> (\<exists>out. mapChangesToDocument
         [\<lparr>type = REPLACEMENT, originalText = Some ''b'', suggestedText = Some ''c'',
           reason = ''r'', severity = ChangeHIGH, ruleId = None, confidence = 1\<rparr>] ''abb''
           = Some out
        \<and> length out = 1
        \<and> start (position (out ! 0)) = 1 \<and> end' (position (out ! 0)) = 2)"
  using mapChangesToDocument_exact_position [of 0
      "[\<lparr>type = REPLACEMENT, originalText = Some ''b'', suggestedText = Some ''c'',
           reason = ''r'', severity = ChangeHIGH, ruleId = None, confidence = 1\<rparr>]"
      "''b''" "''abb''" 1]
  by (simp add: occursAt_def)

text \<open>
  C6. For every \<open>searchText\<close> and \<open>fullText\<close>, \<open>findTextPosition\<close> terminates and returns a
  position; the loop that maps the index back terminates from every state, its
  original-text index only growing and staying within the length of \<open>fullText\<close> (or where
  it started, when that is beyond).
\<close>

theorem findTextPosition_terminates:
  "(\<exists>p. findTextPosition searchText fullText = Some p)
   \<and> (\<exists>n. mapBack fullText index originalIndex normalizedIndex = Some n
          \<and> originalIndex \<le> n \<and> n \<le> max originalIndex (length fullText))"
  using findTextPosition_total mapBack_total by blast

text \<open>
  C8. \<open>findTextPosition\<close> always returns, and it returns the same position
  \<open>{start: 0, end: 0}\<close>, without line or column, when \<open>searchText\<close> is empty and when
  \<open>searchText\<close> occurs neither verbatim in \<open>fullText\<close> nor, normalized, in the normalized
  \<open>fullText\<close>: the two cases give the caller equal values.
\<close>

theorem findTextPosition_sentinel:
  "(\<exists>p. findTextPosition searchText fullText = Some p)
   \<and> findTextPosition [] fullText
       = Some \<lparr>start = 0, end' = 0, line = None, column = None, paragraph' = None\<rparr>
   \<and> ((\<forall>i. \<not> occursAt fullText searchText i)
        \<and> (\<forall>i. \<not> occursAt (normalizeText fullText) (normalizeText searchText) i)
      \<longrightarrow> findTextPosition searchText fullText
          = Some \<lparr>start = 0, end' = 0, line = None, column = None, paragraph' = None\<rparr>)"
proof (intro conjI impI)
  show "\<exists>p. findTextPosition searchText fullText = Some p"
    by (rule findTextPosition_total)
next
  show "findTextPosition [] fullText
       = Some \<lparr>start = 0, end' = 0, line = None, column = None, paragraph' = None\<rparr>"
    by (simp add: findTextPosition_def notFound_def)
next
  assume "(\<forall>i. \<not> occursAt fullText searchText i)
        \<and> (\<forall>i. \<not> occursAt (normalizeText fullText) (normalizeText searchText) i)"
  then have "indexOf fullText searchText = - 1"
    and "indexOf (normalizeText fullText) (normalizeText searchText) = - 1"
    by (simp_all add: indexOf_none_iff)
  then show "findTextPosition searchText fullText
       = Some \<lparr>start = 0, end' = 0, line = None, column = None, paragraph' = None\<rparr>"
    by (simp add: findTextPosition_def fuzzyFindPosition_def notFound_def Let_def)
qed

theorem findTextPosition_sentinel_witness:
  "(\<forall>i. \<not> occursAt ''ab'' ''zz'' i)
   \<and> (\<forall>i. \<not> occursAt (normalizeText ''ab'') (normalizeText ''zz'') i)
   \<and> findTextPosition ''zz'' ''ab''
       = Some \<lparr>start = 0, end' = 0, line = None, column = None, paragraph' = None\<rparr>
   \<and> findTextPosition [] ''ab'' = findTextPosition ''zz'' ''ab''"
proof -
  have a: "indexOf ''ab'' ''zz'' = - 1" by code_simp
  have b: "indexOf (normalizeText ''ab'') (normalizeText ''zz'') = - 1" by code_simp
  from a b findTextPosition_sentinel [of "''zz''" "''ab''"] show ?thesis
    by (simp add: indexOf_none_iff)
qed

text \<open>
  C2. The claim: when a non-empty \<open>originalText\<close> does not occur verbatim but its
  normalized form occurs in the normalized content, \<open>findTextPosition\<close> returns as
  \<open>start\<close> the index in the original content at which the matched passage begins.
  The code does not: the loop that maps the index back never counts a white-space unit,
  since a single white-space unit normalizes to the empty string, while the index that it
  counts up to has one unit for every white-space run inside the normalized text; so the
  loop stops at another index than the one where the passage begins. For \<open>B\<close> in
  \<open>a b\<close> the passage begins at index 2 and the code returns 3, the length of the
  document.
\<close>

theorem findTextPosition_fuzzy_overshoots:
  "indexOf ''a b'' ''B'' = - 1
   \<and> indexOf (normalizeText ''a b'') (normalizeText ''B'') = 2
   \<and> occursAt (toLowerCase ''a b'') (toLowerCase ''B'') 2
   \<and> \<not> occursAt (toLowerCase ''a b'') (toLowerCase ''B'') 0
   \<and> \<not> occursAt (toLowerCase ''a b'') (toLowerCase ''B'') 1
   \<and> findTextPosition ''B'' ''a b''
       = Some \<lparr>start = 3, end' = 4, line = Some 1, column = Some 4, paragraph' = None\<rparr>"
proof -
  have "indexOf ''a b'' ''B'' = - 1" by code_simp
  moreover have "indexOf (normalizeText ''a b'') (normalizeText ''B'') = 2" by code_simp
  moreover have "occursAt (toLowerCase ''a b'') (toLowerCase ''B'') 2" by code_simp
  moreover have "\<not> occursAt (toLowerCase ''a b'') (toLowerCase ''B'') 0" by code_simp
  moreover have "\<not> occursAt (toLowerCase ''a b'') (toLowerCase ''B'') 1" by code_simp
  moreover have "findTextPosition ''B'' ''a b''
       = Some \<lparr>start = 3, end' = 4, line = Some 1, column = Some 4, paragraph' = None\<rparr>"
    by code_simp
  ultimately show ?thesis by simp
qed

section \<open>The round trip through the editor state\<close>

lemma split_acc_nonempty: "split_acc sep acc s \<noteq> []"
  by (induction sep acc s rule: split_acc.induct) auto

lemma join_Cons: "xs \<noteq> [] \<Longrightarrow> join (x # xs) sep = x @ sep @ join xs sep"
  by (cases xs) auto

lemma join_split_acc: "join (split_acc sep acc s) sep = acc @ s"
proof (induction sep acc s rule: split_acc.induct)
  case (1 sep acc)
  then show ?case by simp
next
  case (2 sep acc c cs)
  show ?case
  proof (cases "sep \<noteq> [] \<and> take (length sep) (c # cs) = sep")
    case True
    have "take (length sep) (c # cs) @ drop (length sep) (c # cs) = c # cs"
      by (rule append_take_drop_id)
    with True have e: "sep @ drop (length sep) (c # cs) = c # cs"
      by simp
    from True 2(1) have "join (split_acc sep [] (drop (length sep) (c # cs))) sep
        = drop (length sep) (c # cs)" by simp
    then have "join (acc # split_acc sep [] (drop (length sep) (c # cs))) sep
        = acc @ sep @ drop (length sep) (c # cs)"
      by (simp add: join_Cons split_acc_nonempty del: drop_Suc_Cons take_Suc_Cons)
    with e have "join (acc # split_acc sep [] (drop (length sep) (c # cs))) sep = acc @ c # cs"
      by simp
    moreover have "split_acc sep acc (c # cs) = acc # split_acc sep [] (drop (length sep) (c # cs))"
      using True by simp
    ultimately show ?thesis by simp
  next
    case False
    with 2(2) show ?thesis by auto
  qed
qed

lemma join_split: "join (split s sep) sep = s"
proof (cases "sep = []")
  case True
  have "join (map (\<lambda>c. [c]) s) [] = s"
    by (induction s rule: induct_list012) auto
  with True show ?thesis by (simp add: split_def)
next
  case False
  then show ?thesis by (simp add: split_def join_split_acc)
qed

lemma trim_last_not_space:
  assumes "trim p = p" "p \<noteq> []"
  shows "\<not> isWhiteSpace (last p)"
proof -
  let ?xs = "dropWhile isWhiteSpace (rev (dropWhile isWhiteSpace p))"
  from assms have "rev ?xs \<noteq> []" by (simp add: trim_def)
  then have ne: "?xs \<noteq> []" by simp
  then have "\<not> isWhiteSpace (hd ?xs)" by (rule hd_dropWhile)
  moreover have "last (rev ?xs) = hd ?xs" using ne by (simp add: last_rev)
  moreover have "rev ?xs = p" using assms(1) by (simp add: trim_def)
  ultimately show ?thesis by simp
qed

lemma trim_id:
  assumes "p \<noteq> []" "\<not> isWhiteSpace (hd p)" "\<not> isWhiteSpace (last p)"
  shows "trim p = p"
proof -
  from assms(1,2) have a: "dropWhile isWhiteSpace p = p" by (cases p) auto
  from assms(1,3) have "dropWhile isWhiteSpace (rev p) = rev p"
    by (cases "rev p") (auto simp: last_rev [symmetric] hd_rev)
  with a show ?thesis by (simp add: trim_def)
qed

lemma split_acc_skip:
  "(\<forall>i<length p. take (length sep) (drop i (p @ r)) \<noteq> sep) \<Longrightarrow>
     split_acc sep acc (p @ r) = split_acc sep (acc @ p) r"
proof (induction p arbitrary: acc)
  case Nil
  then show ?case by simp
next
  case (Cons c p)
  from Cons.prems have "take (length sep) (drop 0 ((c # p) @ r)) \<noteq> sep" by blast
  then have n: "take (length sep) (c # p @ r) \<noteq> sep" by simp
  have "\<forall>i<length p. take (length sep) (drop i (p @ r)) \<noteq> sep"
  proof (intro allI impI)
    fix i assume "i < length p"
    then have "Suc i < length (c # p)" by simp
    with Cons.prems have "take (length sep) (drop (Suc i) ((c # p) @ r)) \<noteq> sep" by blast
    then show "take (length sep) (drop i (p @ r)) \<noteq> sep" by simp
  qed
  from Cons.IH [OF this, of "acc @ [c]"] n show ?case by simp
qed


lemma length_nn: "length nn = 2"
  by (simp add: nn_def)

lemma piece_no_separator:
  assumes "p \<noteq> []" "\<not> isWhiteSpace (last p)" "\<forall>i. \<not> occursAt p nn i"
  shows "\<forall>i<length p. take (length nn) (drop i (p @ r)) \<noteq> nn"
proof (intro allI impI notI)
  fix i assume i: "i < length p" and e: "take (length nn) (drop i (p @ r)) = nn"
  from i have d: "drop i (p @ r) = drop i p @ r" by simp
  from e d have e2: "take 2 (drop i p @ r) = nn" by (simp only: length_nn)
  show False
  proof (cases "Suc i < length p")
    case True
    then have "2 \<le> length (drop i p)" by simp
    then have "take 2 (drop i p @ r) = take 2 (drop i p)" by simp
    with e2 True have "occursAt p nn i" by (simp add: occursAt_def length_nn)
    with assms(3) show False by blast
  next
    case False
    with i have l: "Suc i = length p" by simp
    then have "drop i p = [last p]"
      using assms(1) by (metis append_butlast_last_id append_eq_conv_conj diff_Suc_1 length_butlast)
    with e2 have "last p = CHR 0x0A" by (cases r) (auto simp: nn_def)
    with assms(2) show False by (simp add: isWhiteSpace_def)
  qed
qed

lemma split_acc_join:
  assumes "ps \<noteq> []"
    and "\<forall>p\<in>set ps. p \<noteq> [] \<and> \<not> isWhiteSpace (last p) \<and> (\<forall>i. \<not> occursAt p nn i)"
  shows "split_acc nn [] (join ps nn) = ps"
  using assms
proof (induction ps rule: induct_list012)
  case 1
  then show ?case by simp
next
  case (2 p)
  then have p: "p \<noteq> []" "\<not> isWhiteSpace (last p)" "\<forall>i. \<not> occursAt p nn i" by simp_all
  from split_acc_skip [OF piece_no_separator [OF p, of "[]"], of "[]"] show ?case by simp
next
  case (3 p q qs)
  let ?r = "nn @ join (q # qs) nn"
  from 3(4) have p: "p \<noteq> []" "\<not> isWhiteSpace (last p)" "\<forall>i. \<not> occursAt p nn i" by simp_all
  from split_acc_skip [OF piece_no_separator [OF p, of ?r], of "[]"]
  have "split_acc nn [] (p @ ?r) = split_acc nn p ?r" by simp
  also have "\<dots> = p # split_acc nn [] (join (q # qs) nn)"
    by (simp add: nn_def)
  also have "split_acc nn [] (join (q # qs) nn) = q # qs"
    using 3(2) 3(4) by simp
  finally show ?case by simp
qed

lemma extractText_paragraph: "extractText (paragraphNode [textNode x]) = x"
  by (simp add: paragraphNode_def textNode_def)

lemma lexicalToText_textToLexical:
  "lexicalToText (textToLexical t)
     = join (map trim (filter (\<lambda>p. trim p \<noteq> []) (split t ''\<newline>\<newline>''))) ''\<newline>\<newline>''"
  by (simp add: lexicalToText_def textToLexical_def rootOf_def Let_def comp_def
      extractText_paragraph del: extractText.simps)

lemma trimmed_pieces_kept:
  assumes "\<forall>p\<in>set xs. p \<noteq> [] \<and> trim p = p"
  shows "map trim (filter (\<lambda>p. trim p \<noteq> []) xs) = xs"
proof -
  from assms have "filter (\<lambda>p. trim p \<noteq> []) xs = xs"
    by (induction xs) auto
  moreover from assms have "map trim xs = xs"
    by (induction xs) auto
  ultimately show ?thesis by simp
qed

lemma nn_literal: "''\<newline>\<newline>'' = nn"
  by (simp add: nn_def)

text \<open>
  C9. For every string \<open>t\<close>, \<open>lexicalToText (textToLexical t)\<close> is the join, with two line
  feeds, of the trimmed non-blank pieces that two line feeds separate in \<open>t\<close>. So the round
  trip returns \<open>t\<close> when every such piece of \<open>t\<close> is non-empty and has no white space at
  either end, and it returns the join of any paragraphs \<open>ps\<close> that are non-empty, have no
  white space at either end and hold no separator.
\<close>

theorem lexical_round_trip:
  "lexicalToText (textToLexical t)
     = join (map trim (filter (\<lambda>p. trim p \<noteq> []) (split t ''\<newline>\<newline>''))) ''\<newline>\<newline>''
   \<and> ((\<forall>p\<in>set (split t ''\<newline>\<newline>''). p \<noteq> [] \<and> trim p = p)
        \<longrightarrow> lexicalToText (textToLexical t) = t)
   \<and> ((\<forall>p\<in>set ps. p \<noteq> [] \<and> trim p = p \<and> (\<forall>i. \<not> occursAt p ''\<newline>\<newline>'' i))
        \<longrightarrow> lexicalToText (textToLexical (join ps ''\<newline>\<newline>'')) = join ps ''\<newline>\<newline>'')"
proof (intro conjI impI)
  show "lexicalToText (textToLexical t)
     = join (map trim (filter (\<lambda>p. trim p \<noteq> []) (split t ''\<newline>\<newline>''))) ''\<newline>\<newline>''"
    by (rule lexicalToText_textToLexical)
next
  assume "\<forall>p\<in>set (split t ''\<newline>\<newline>''). p \<noteq> [] \<and> trim p = p"
  from trimmed_pieces_kept [OF this] show "lexicalToText (textToLexical t) = t"
    by (simp only: lexicalToText_textToLexical join_split)
next
  assume a: "\<forall>p\<in>set ps. p \<noteq> [] \<and> trim p = p \<and> (\<forall>i. \<not> occursAt p ''\<newline>\<newline>'' i)"
  show "lexicalToText (textToLexical (join ps ''\<newline>\<newline>'')) = join ps ''\<newline>\<newline>''"
  proof (cases "ps = []")
    case True
    have "split [] ''\<newline>\<newline>'' = [[]]" by (simp add: split_def)
    moreover have "trim [] = []" by (simp add: trim_def)
    ultimately show ?thesis using True
      by (simp only: lexicalToText_textToLexical join.simps) simp
  next
    case False
    from a have "\<forall>p\<in>set ps. p \<noteq> [] \<and> \<not> isWhiteSpace (last p) \<and> (\<forall>i. \<not> occursAt p nn i)"
      using trim_last_not_space by (auto simp: nn_literal)
    from split_acc_join [OF False this]
    have "split (join ps ''\<newline>\<newline>'') ''\<newline>\<newline>'' = ps"
      by (simp add: split_def nn_def)
    moreover from a have "map trim (filter (\<lambda>p. trim p \<noteq> []) ps) = ps"
      by (intro trimmed_pieces_kept) blast
    ultimately show ?thesis
      by (simp only: lexicalToText_textToLexical)
  qed
qed

theorem lexical_round_trip_witness:
  "split ''a\<newline>\<newline>b c'' ''\<newline>\<newline>'' = [''a'', ''b c'']
   \<and> trim ''a'' = ''a'' \<and> trim ''b c'' = ''b c''
   \<and> (\<forall>i. \<not> occursAt ''a'' ''\<newline>\<newline>'' i) \<and> (\<forall>i. \<not> occursAt ''b c'' ''\<newline>\<newline>'' i)
   \<and> join [''a'', ''b c''] ''\<newline>\<newline>'' = ''a\<newline>\<newline>b c''
   \<and> lexicalToText (textToLexical (join [''a'', ''b c''] ''\<newline>\<newline>'')) = join [''a'', ''b c''] ''\<newline>\<newline>''
   \<and> lexicalToText (textToLexical ''a\<newline>\<newline>b c'') = ''a\<newline>\<newline>b c''"
proof -
  have s: "split ''a\<newline>\<newline>b c'' ''\<newline>\<newline>'' = [''a'', ''b c'']" by code_simp
  have ta: "trim ''a'' = ''a''" by code_simp
  have tb: "trim ''b c'' = ''b c''" by code_simp
  have oa: "\<not> occursAt ''a'' ''\<newline>\<newline>'' i" for i by (simp add: occursAt_def)
  have ob: "\<not> occursAt ''b c'' ''\<newline>\<newline>'' i" for i
    by (cases i; simp add: occursAt_def) (rename_tac j, case_tac j, simp_all)
  from lexical_round_trip [of "''a\<newline>\<newline>b c''" "[''a'', ''b c'']"] show ?thesis
    by (simp add: s ta tb oa ob)
qed

section \<open>The rules in the prompt\<close>

lemma mset_insert_by: "mset (insert_by cmp x xs) = add_mset x (mset xs)"
  by (induction xs) auto

lemma mset_sort_by: "mset (sort_by cmp xs) = mset xs"
  by (induction xs) (auto simp: sort_by_def mset_insert_by)

lemma set_insert_by: "set (insert_by cmp x xs) = insert x (set xs)"
  by (induction xs) auto

lemma compareRules_le:
  "compareRules a b \<le> 0 \<longleftrightarrow>
     severityOrder (rule_severity a) < severityOrder (rule_severity b)
     \<or> (severityOrder (rule_severity a) = severityOrder (rule_severity b)
        \<and> orderIndex a \<le> orderIndex b)"
  by (auto simp: compareRules_def Let_def)

lemma sorted_insert_by_compareRules:
  "sorted_wrt (\<lambda>a b. compareRules a b \<le> 0) xs \<Longrightarrow>
     sorted_wrt (\<lambda>a b. compareRules a b \<le> 0) (insert_by compareRules x xs)"
proof (induction xs)
  case Nil
  then show ?case by simp
next
  case (Cons y ys)
  show ?case
  proof (cases "compareRules x y \<le> 0")
    case True
    have "compareRules x z \<le> 0" if "z \<in> set ys" for z
    proof -
      from Cons.prems that have "compareRules y z \<le> 0" by auto
      with True show ?thesis unfolding compareRules_le by linarith
    qed
    with True Cons.prems show ?thesis by auto
  next
    case False
    then have "compareRules y x \<le> 0" unfolding compareRules_le by linarith
    with False Cons show ?thesis by (auto simp: set_insert_by)
  qed
qed

lemma sorted_sort_by_compareRules:
  "sorted_wrt (\<lambda>a b. compareRules a b \<le> 0) (sort_by compareRules xs)"
  by (induction xs) (auto simp: sort_by_def sorted_insert_by_compareRules)

lemma digit_char: "d < 10 \<Longrightarrow> (of_char (char_of (48 + d :: nat)) :: nat) = 48 + d"
  by simp

lemma decimalValue_snoc: "decimalValue (s @ [c]) = 10 * decimalValue s + (of_char c - 48)"
  by (simp add: decimalValue_def)

lemma showNat_nonempty: "showNat n \<noteq> []"
  by (induction n rule: showNat.induct) (subst showNat.simps, simp)

lemma showNat_digits: "list_all isDigit (showNat n)"
proof (induction n rule: showNat.induct)
  case (1 n)
  show ?case
  proof (cases "n < 10")
    case True
    then show ?thesis by (subst showNat.simps) (simp add: isDigit_def)
  next
    case False
    have "n mod 10 < 10" by simp
    then have "isDigit (char_of (48 + n mod 10))" by (simp add: isDigit_def)
    with 1 False show ?thesis by (subst showNat.simps) simp
  qed
qed

lemma showNat_value: "decimalValue (showNat n) = n"
proof (induction n rule: showNat.induct)
  case (1 n)
  show ?case
  proof (cases "n < 10")
    case True
    then show ?thesis by (subst showNat.simps) (simp add: decimalValue_def)
  next
    case False
    have "n mod 10 < 10" by simp
    then have "(of_char (char_of (48 + n mod 10)) :: nat) = 48 + n mod 10" by simp
    with 1 False show ?thesis
      by (subst showNat.simps) (simp add: decimalValue_snoc)
  qed
qed

lemma showNat_leading: "(hd (showNat n) = CHR ''0'') = (n = 0)"
proof (induction n rule: showNat.induct)
  case (1 n)
  show ?case
  proof (cases "n < 10")
    case True
    have z: "char_of (48 :: nat) = CHR ''0''" by code_simp
    have "(char_of (48 + n) = CHR ''0'') = (n = 0)"
    proof
      assume "char_of (48 + n) = CHR ''0''"
      then have "(of_char (char_of (48 + n)) :: nat) = of_char (CHR ''0'')" by simp
      with True show "n = 0" by simp
    next
      assume "n = 0"
      with z show "char_of (48 + n) = CHR ''0''" by simp
    qed
    with True show ?thesis by (subst showNat.simps) simp
  next
    case False
    then have "n div 10 \<noteq> 0" by simp
    with 1 False show ?thesis
      by (subst showNat.simps) (simp add: showNat_nonempty)
  qed
qed

lemma isDigit_chars: "isDigit c \<Longrightarrow> c \<in> set ''0123456789''"
proof -
  assume "isDigit c"
  then have b: "48 \<le> (of_char c :: nat)" "(of_char c :: nat) \<le> 57" by (simp_all add: isDigit_def)
  then have "(of_char c :: nat) \<in> {48, 49, 50, 51, 52, 53, 54, 55, 56, 57}"
    by (simp only: insert_iff empty_iff) arith
  then have m: "char_of (of_char c :: nat) \<in> char_of ` {48, 49, 50, 51, 52, 53, 54, 55, 56, 57 :: nat}"
    by (rule imageI)
  have e: "char_of ` {48, 49, 50, 51, 52, 53, 54, 55, 56, 57 :: nat} = set ''0123456789''"
    by code_simp
  have a: "char_of (of_char c :: nat) = c" by simp
  from m show ?thesis unfolding e a .
qed

text \<open>
  C7. For every playbook, the prompt that \<open>buildAnalysisPrompt\<close> builds is the contract and
  the heading of the playbook, then one block for each rule of a list \<open>rs\<close>, then the fixed
  instructions. The block of a rule gives its number in the list, its name, its id, its
  type, its severity, its instructions and, where it has one, its preferred language. The
  list \<open>rs\<close> holds exactly the rules of the playbook with \<open>isActive\<close> true, each as often as
  the playbook holds it, and no rule with \<open>isActive\<close> false; it stands in the severity order
  CRITICAL, HIGH, MEDIUM, LOW, INFO, and rules of equal severity by ascending \<open>orderIndex\<close>.
  A severity and a type are written as their names, and the number as its decimal
  numeral.
\<close>

theorem buildAnalysisPrompt_rules:
  "(\<exists>rs. buildAnalysisPrompt contractContent playbook
          = ''**CONTRACT TO ANALYZE:**\<newline>\<newline>'' @ contractContent @ ''\<newline>\<newline>''
            @ ''**PLAYBOOK: '' @ playbook_name playbook @ ''**\<newline>''
            @ (case description playbook of
                 None \<Rightarrow> []
               | Some d \<Rightarrow> if d = [] then [] else ''Description: '' @ d @ ''\<newline>'')
            @ (case contractType playbook of
                 None \<Rightarrow> []
               | Some c \<Rightarrow> if c = [] then [] else ''Contract Type: '' @ c @ ''\<newline>'')
            @ ''\<newline>**REVIEW RULES:**\<newline>\<newline>''
            @ concat (map (\<lambda>(index, rule).
                ''**Rule '' @ showNat (index + 1) @ '': '' @ rule_name rule
                  @ ''** (ID: '' @ rule_id rule @ '')\<newline>''
                @ ''Type: '' @ showRuleType (rule_type rule) @ ''\<newline>''
                @ ''Severity: '' @ showSeverity (rule_severity rule) @ ''\<newline>''
                @ ''Instructions: '' @ aiPrompt rule @ ''\<newline>''
                @ (case preferredLanguage rule of
                     None \<Rightarrow> []
                   | Some l \<Rightarrow> if l = [] then []
                               else ''Preferred Language/Format:\<newline>'' @ l @ ''\<newline>'')
                @ ''\<newline>'') (enumerate 0 rs))
            @ ''\<newline>**ANALYSIS INSTRUCTIONS:**\<newline>''
            @ ''1. Review the contract against each active rule\<newline>''
            @ ''2. Identify specific text that violates or could improve compliance\<newline>''
            @ ''3. Provide exact replacement text following legal best practices\<newline>''
            @ ''4. Calculate risk score (0-10) considering: liability, enforceability, compliance gaps\<newline>''
            @ ''5. Calculate compliance score (0-10) for GDPR, SOC2, and industry standards\<newline>''
            @ ''6. Extract key terms and identify missing critical provisions\<newline>\<newline>''
            @ ''Analyze thoroughly and provide specific, actionable recommendations.''
      \<and> mset rs = mset (filter isActive (rules playbook))
      \<and> sorted_wrt (\<lambda>a b.
            severityOrder (rule_severity a) < severityOrder (rule_severity b)
            \<or> (severityOrder (rule_severity a) = severityOrder (rule_severity b)
               \<and> orderIndex a \<le> orderIndex b)) rs)
   \<and> map severityOrder [CRITICAL, HIGH, MEDIUM, LOW, INFO] = [0, 1, 2, 3, 4]
   \<and> map showSeverity [CRITICAL, HIGH, MEDIUM, LOW, INFO]
       = [''CRITICAL'', ''HIGH'', ''MEDIUM'', ''LOW'', ''INFO'']
   \<and> map showRuleType [CLAUSE_CHECK, RISK_ASSESSMENT, LANGUAGE_PREFERENCE, MISSING_PROVISION,
         COMPLIANCE_CHECK, TERM_EXTRACTION, DEADLINE_CHECK]
       = [''CLAUSE_CHECK'', ''RISK_ASSESSMENT'', ''LANGUAGE_PREFERENCE'', ''MISSING_PROVISION'',
          ''COMPLIANCE_CHECK'', ''TERM_EXTRACTION'', ''DEADLINE_CHECK'']
   \<and> list_all (\<lambda>c. c \<in> set ''0123456789'') (showNat n)
   \<and> foldl (\<lambda>a c. 10 * a + (of_char c - 48)) 0 (showNat n) = n
   \<and> (hd (showNat n) = CHR ''0'') = (n = 0)"
proof (intro conjI)
  have "buildAnalysisPrompt contractContent playbook
          = ''**CONTRACT TO ANALYZE:**\<newline>\<newline>'' @ contractContent @ ''\<newline>\<newline>''
            @ ''**PLAYBOOK: '' @ playbook_name playbook @ ''**\<newline>''
            @ (case description playbook of
                 None \<Rightarrow> []
               | Some d \<Rightarrow> if d = [] then [] else ''Description: '' @ d @ ''\<newline>'')
            @ (case contractType playbook of
                 None \<Rightarrow> []
               | Some c \<Rightarrow> if c = [] then [] else ''Contract Type: '' @ c @ ''\<newline>'')
            @ ''\<newline>**REVIEW RULES:**\<newline>\<newline>''
            @ concat (map (\<lambda>(index, rule).
                ''**Rule '' @ showNat (index + 1) @ '': '' @ rule_name rule
                  @ ''** (ID: '' @ rule_id rule @ '')\<newline>''
                @ ''Type: '' @ showRuleType (rule_type rule) @ ''\<newline>''
                @ ''Severity: '' @ showSeverity (rule_severity rule) @ ''\<newline>''
                @ ''Instructions: '' @ aiPrompt rule @ ''\<newline>''
                @ (case preferredLanguage rule of
                     None \<Rightarrow> []
                   | Some l \<Rightarrow> if l = [] then []
                               else ''Preferred Language/Format:\<newline>'' @ l @ ''\<newline>'')
                @ ''\<newline>'') (enumerate 0 (sortedRules playbook)))
            @ ''\<newline>**ANALYSIS INSTRUCTIONS:**\<newline>''
            @ ''1. Review the contract against each active rule\<newline>''
            @ ''2. Identify specific text that violates or could improve compliance\<newline>''
            @ ''3. Provide exact replacement text following legal best practices\<newline>''
            @ ''4. Calculate risk score (0-10) considering: liability, enforceability, compliance gaps\<newline>''
            @ ''5. Calculate compliance score (0-10) for GDPR, SOC2, and industry standards\<newline>''
            @ ''6. Extract key terms and identify missing critical provisions\<newline>\<newline>''
            @ ''Analyze thoroughly and provide specific, actionable recommendations.''"
    by (simp add: buildAnalysisPrompt_def Let_def promptHead_def ruleBlock_def promptTail_def)
  moreover have "mset (sortedRules playbook) = mset (filter isActive (rules playbook))"
    by (simp add: sortedRules_def mset_sort_by)
  moreover have "sorted_wrt (\<lambda>a b.
            severityOrder (rule_severity a) < severityOrder (rule_severity b)
            \<or> (severityOrder (rule_severity a) = severityOrder (rule_severity b)
               \<and> orderIndex a \<le> orderIndex b)) (sortedRules playbook)"
  proof -
    have "sorted_wrt (\<lambda>a b. compareRules a b \<le> 0) (sortedRules playbook)"
      by (simp add: sortedRules_def sorted_sort_by_compareRules)
    then show ?thesis by (simp only: compareRules_le)
  qed
  ultimately show "\<exists>rs. buildAnalysisPrompt contractContent playbook
          = ''**CONTRACT TO ANALYZE:**\<newline>\<newline>'' @ contractContent @ ''\<newline>\<newline>''
            @ ''**PLAYBOOK: '' @ playbook_name playbook @ ''**\<newline>''
            @ (case description playbook of
                 None \<Rightarrow> []
               | Some d \<Rightarrow> if d = [] then [] else ''Description: '' @ d @ ''\<newline>'')
            @ (case contractType playbook of
                 None \<Rightarrow> []
               | Some c \<Rightarrow> if c = [] then [] else ''Contract Type: '' @ c @ ''\<newline>'')
            @ ''\<newline>**REVIEW RULES:**\<newline>\<newline>''
            @ concat (map (\<lambda>(index, rule).
                ''**Rule '' @ showNat (index + 1) @ '': '' @ rule_name rule
                  @ ''** (ID: '' @ rule_id rule @ '')\<newline>''
                @ ''Type: '' @ showRuleType (rule_type rule) @ ''\<newline>''
                @ ''Severity: '' @ showSeverity (rule_severity rule) @ ''\<newline>''
                @ ''Instructions: '' @ aiPrompt rule @ ''\<newline>''
                @ (case preferredLanguage rule of
                     None \<Rightarrow> []
                   | Some l \<Rightarrow> if l = [] then []
                               else ''Preferred Language/Format:\<newline>'' @ l @ ''\<newline>'')
                @ ''\<newline>'') (enumerate 0 rs))
            @ ''\<newline>**ANALYSIS INSTRUCTIONS:**\<newline>''
            @ ''1. Review the contract against each active rule\<newline>''
            @ ''2. Identify specific text that violates or could improve compliance\<newline>''
            @ ''3. Provide exact replacement text following legal best practices\<newline>''
            @ ''4. Calculate risk score (0-10) considering: liability, enforceability, compliance gaps\<newline>''
            @ ''5. Calculate compliance score (0-10) for GDPR, SOC2, and industry standards\<newline>''
            @ ''6. Extract key terms and identify missing critical provisions\<newline>\<newline>''
            @ ''Analyze thoroughly and provide specific, actionable recommendations.''
      \<and> mset rs = mset (filter isActive (rules playbook))
      \<and> sorted_wrt (\<lambda>a b.
            severityOrder (rule_severity a) < severityOrder (rule_severity b)
            \<or> (severityOrder (rule_severity a) = severityOrder (rule_severity b)
               \<and> orderIndex a \<le> orderIndex b)) rs"
    by blast
next
  show "map severityOrder [CRITICAL, HIGH, MEDIUM, LOW, INFO] = [0, 1, 2, 3, 4]"
    by simp
next
  show "map showSeverity [CRITICAL, HIGH, MEDIUM, LOW, INFO]
       = [''CRITICAL'', ''HIGH'', ''MEDIUM'', ''LOW'', ''INFO'']"
    by simp
next
  show "map showRuleType [CLAUSE_CHECK, RISK_ASSESSMENT, LANGUAGE_PREFERENCE, MISSING_PROVISION,
         COMPLIANCE_CHECK, TERM_EXTRACTION, DEADLINE_CHECK]
       = [''CLAUSE_CHECK'', ''RISK_ASSESSMENT'', ''LANGUAGE_PREFERENCE'', ''MISSING_PROVISION'',
          ''COMPLIANCE_CHECK'', ''TERM_EXTRACTION'', ''DEADLINE_CHECK'']"
    by simp
next
  have "list_all isDigit (showNat n)" by (rule showNat_digits)
  moreover have "isDigit c \<Longrightarrow> c \<in> set ''0123456789''" for c
    by (rule isDigit_chars)
  ultimately show "list_all (\<lambda>c. c \<in> set ''0123456789'') (showNat n)"
    unfolding list_all_iff by blast
next
  show "foldl (\<lambda>a c. 10 * a + (of_char c - 48)) 0 (showNat n) = n"
    using showNat_value [of n] by (simp only: decimalValue_def)
next
  show "(hd (showNat n) = CHR ''0'') = (n = 0)"
    by (rule showNat_leading)
qed

theorem buildAnalysisPrompt_rules_witness:
  "buildAnalysisPrompt ''c''
     (\<lparr>playbook_name = ''P'', description = None, contractType = Some ''NDA'', rules =
      [\<lparr>rule_id = ''a'', rule_name = ''A'', rule_type = CLAUSE_CHECK, aiPrompt = ''p'',
         rule_severity = LOW, preferredLanguage = None, orderIndex = 2, isActive = True\<rparr>,
       \<lparr>rule_id = ''b'', rule_name = ''B'', rule_type = CLAUSE_CHECK, aiPrompt = ''p'',
         rule_severity = CRITICAL, preferredLanguage = None, orderIndex = 1, isActive = False\<rparr>,
       \<lparr>rule_id = ''c'', rule_name = ''C'', rule_type = CLAUSE_CHECK, aiPrompt = ''p'',
         rule_severity = LOW, preferredLanguage = None, orderIndex = 1, isActive = True\<rparr>,
       \<lparr>rule_id = ''d'', rule_name = ''D'', rule_type = CLAUSE_CHECK, aiPrompt = ''p'',
         rule_severity = HIGH, preferredLanguage = Some ''x'', orderIndex = 3, isActive = True\<rparr>]\<rparr>)
     = ''**CONTRACT TO ANALYZE:**\<newline>\<newline>c\<newline>\<newline>**PLAYBOOK: P**\<newline>Contract Type: NDA\<newline>\<newline>**REVIEW RULES:**\<newline>\<newline>**Rule 1: D** (ID: d)\<newline>Type: CLAUSE_CHECK\<newline>Severity: HIGH\<newline>Instructions: p\<newline>Preferred Language/Format:\<newline>x\<newline>\<newline>**Rule 2: C** (ID: c)\<newline>Type: CLAUSE_CHECK\<newline>Severity: LOW\<newline>Instructions: p\<newline>\<newline>**Rule 3: A** (ID: a)\<newline>Type: CLAUSE_CHECK\<newline>Severity: LOW\<newline>Instructions: p\<newline>\<newline>\<newline>**ANALYSIS INSTRUCTIONS:**\<newline>1. Review the contract against each active rule\<newline>2. Identify specific text that violates or could improve compliance\<newline>3. Provide exact replacement text following legal best practices\<newline>4. Calculate risk score (0-10) considering: liability, enforceability, compliance gaps\<newline>5. Calculate compliance score (0-10) for GDPR, SOC2, and industry standards\<newline>6. Extract key terms and identify missing critical provisions\<newline>\<newline>Analyze thoroughly and provide specific, actionable recommendations.''
   \<and> (\<exists>rs. buildAnalysisPrompt ''c''
     (\<lparr>playbook_name = ''P'', description = None, contractType = Some ''NDA'', rules =
      [\<lparr>rule_id = ''a'', rule_name = ''A'', rule_type = CLAUSE_CHECK, aiPrompt = ''p'',
         rule_severity = LOW, preferredLanguage = None, orderIndex = 2, isActive = True\<rparr>,
       \<lparr>rule_id = ''b'', rule_name = ''B'', rule_type = CLAUSE_CHECK, aiPrompt = ''p'',
         rule_severity = CRITICAL, preferredLanguage = None, orderIndex = 1, isActive = False\<rparr>,
       \<lparr>rule_id = ''c'', rule_name = ''C'', rule_type = CLAUSE_CHECK, aiPrompt = ''p'',
         rule_severity = LOW, preferredLanguage = None, orderIndex = 1, isActive = True\<rparr>,
       \<lparr>rule_id = ''d'', rule_name = ''D'', rule_type = CLAUSE_CHECK, aiPrompt = ''p'',
         rule_severity = HIGH, preferredLanguage = Some ''x'', orderIndex = 3, isActive = True\<rparr>]\<rparr>)
          = ''**CONTRACT TO ANALYZE:**\<newline>\<newline>'' @ ''c'' @ ''\<newline>\<newline>''
            @ ''**PLAYBOOK: '' @ playbook_name (\<lparr>playbook_name = ''P'', description = None, contractType = Some ''NDA'', rules =
      [\<lparr>rule_id = ''a'', rule_name = ''A'', rule_type = CLAUSE_CHECK, aiPrompt = ''p'',
         rule_severity = LOW, preferredLanguage = None, orderIndex = 2, isActive = True\<rparr>,
       \<lparr>rule_id = ''b'', rule_name = ''B'', rule_type = CLAUSE_CHECK, aiPrompt = ''p'',
         rule_severity = CRITICAL, preferredLanguage = None, orderIndex = 1, isActive = False\<rparr>,
       \<lparr>rule_id = ''c'', rule_name = ''C'', rule_type = CLAUSE_CHECK, aiPrompt = ''p'',
         rule_severity = LOW, preferredLanguage = None, orderIndex = 1, isActive = True\<rparr>,
       \<lparr>rule_id = ''d'', rule_name = ''D'', rule_type = CLAUSE_CHECK, aiPrompt = ''p'',
         rule_severity = HIGH, preferredLanguage = Some ''x'', orderIndex = 3, isActive = True\<rparr>]\<rparr>) @ ''**\<newline>''
            @ (case description (\<lparr>playbook_name = ''P'', description = None, contractType = Some ''NDA'', rules =
      [\<lparr>rule_id = ''a'', rule_name = ''A'', rule_type = CLAUSE_CHECK, aiPrompt = ''p'',
         rule_severity = LOW, preferredLanguage = None, orderIndex = 2, isActive = True\<rparr>,
       \<lparr>rule_id = ''b'', rule_name = ''B'', rule_type = CLAUSE_CHECK, aiPrompt = ''p'',
         rule_severity = CRITICAL, preferredLanguage = None, orderIndex = 1, isActive = False\<rparr>,
       \<lparr>rule_id = ''c'', rule_name = ''C'', rule_type = CLAUSE_CHECK, aiPrompt = ''p'',
         rule_severity = LOW, preferredLanguage = None, orderIndex = 1, isActive = True\<rparr>,
       \<lparr>rule_id = ''d'', rule_name = ''D'', rule_type = CLAUSE_CHECK, aiPrompt = ''p'',
         rule_severity = HIGH, preferredLanguage = Some ''x'', orderIndex = 3, isActive = True\<rparr>]\<rparr>) of
                 None \<Rightarrow> []
               | Some d \<Rightarrow> if d = [] then [] else ''Description: '' @ d @ ''\<newline>'')
            @ (case contractType (\<lparr>playbook_name = ''P'', description = None, contractType = Some ''NDA'', rules =
      [\<lparr>rule_id = ''a'', rule_name = ''A'', rule_type = CLAUSE_CHECK, aiPrompt = ''p'',
         rule_severity = LOW, preferredLanguage = None, orderIndex = 2, isActive = True\<rparr>,
       \<lparr>rule_id = ''b'', rule_name = ''B'', rule_type = CLAUSE_CHECK, aiPrompt = ''p'',
         rule_severity = CRITICAL, preferredLanguage = None, orderIndex = 1, isActive = False\<rparr>,
       \<lparr>rule_id = ''c'', rule_name = ''C'', rule_type = CLAUSE_CHECK, aiPrompt = ''p'',
         rule_severity = LOW, preferredLanguage = None, orderIndex = 1, isActive = True\<rparr>,
       \<lparr>rule_id = ''d'', rule_name = ''D'', rule_type = CLAUSE_CHECK, aiPrompt = ''p'',
         rule_severity = HIGH, preferredLanguage = Some ''x'', orderIndex = 3, isActive = True\<rparr>]\<rparr>) of
                 None \<Rightarrow> []
               | Some c \<Rightarrow> if c = [] then [] else ''Contract Type: '' @ c @ ''\<newline>'')
            @ ''\<newline>**REVIEW RULES:**\<newline>\<newline>''
            @ concat (map (\<lambda>(index, rule).
                ''**Rule '' @ showNat (index + 1) @ '': '' @ rule_name rule
                  @ ''** (ID: '' @ rule_id rule @ '')\<newline>''
                @ ''Type: '' @ showRuleType (rule_type rule) @ ''\<newline>''
                @ ''Severity: '' @ showSeverity (rule_severity rule) @ ''\<newline>''
                @ ''Instructions: '' @ aiPrompt rule @ ''\<newline>''
                @ (case preferredLanguage rule of
                     None \<Rightarrow> []
                   | Some l \<Rightarrow> if l = [] then []
                               else ''Preferred Language/Format:\<newline>'' @ l @ ''\<newline>'')
                @ ''\<newline>'') (enumerate 0 rs))
            @ ''\<newline>**ANALYSIS INSTRUCTIONS:**\<newline>''
            @ ''1. Review the contract against each active rule\<newline>''
            @ ''2. Identify specific text that violates or could improve compliance\<newline>''
            @ ''3. Provide exact replacement text following legal best practices\<newline>''
            @ ''4. Calculate risk score (0-10) considering: liability, enforceability, compliance gaps\<newline>''
            @ ''5. Calculate compliance score (0-10) for GDPR, SOC2, and industry standards\<newline>''
            @ ''6. Extract key terms and identify missing critical provisions\<newline>\<newline>''
            @ ''Analyze thoroughly and provide specific, actionable recommendations.''
      \<and> mset rs =
          {#\<lparr>rule_id = ''a'', rule_name = ''A'', rule_type = CLAUSE_CHECK, aiPrompt = ''p'',
         rule_severity = LOW, preferredLanguage = None, orderIndex = 2, isActive = True\<rparr>,
            \<lparr>rule_id = ''c'', rule_name = ''C'', rule_type = CLAUSE_CHECK, aiPrompt = ''p'',
         rule_severity = LOW, preferredLanguage = None, orderIndex = 1, isActive = True\<rparr>,
            \<lparr>rule_id = ''d'', rule_name = ''D'', rule_type = CLAUSE_CHECK, aiPrompt = ''p'',
         rule_severity = HIGH, preferredLanguage = Some ''x'', orderIndex = 3, isActive = True\<rparr>#}
      \<and> sorted_wrt (\<lambda>a b.
            severityOrder (rule_severity a) < severityOrder (rule_severity b)
            \<or> (severityOrder (rule_severity a) = severityOrder (rule_severity b)
               \<and> orderIndex a \<le> orderIndex b)) rs)"
proof -
  have "buildAnalysisPrompt ''c''
     (\<lparr>playbook_name = ''P'', description = None, contractType = Some ''NDA'', rules =
      [\<lparr>rule_id = ''a'', rule_name = ''A'', rule_type = CLAUSE_CHECK, aiPrompt = ''p'',
         rule_severity = LOW, preferredLanguage = None, orderIndex = 2, isActive = True\<rparr>,
       \<lparr>rule_id = ''b'', rule_name = ''B'', rule_type = CLAUSE_CHECK, aiPrompt = ''p'',
         rule_severity = CRITICAL, preferredLanguage = None, orderIndex = 1, isActive = False\<rparr>,
       \<lparr>rule_id = ''c'', rule_name = ''C'', rule_type = CLAUSE_CHECK, aiPrompt = ''p'',
         rule_severity = LOW, preferredLanguage = None, orderIndex = 1, isActive = True\<rparr>,
       \<lparr>rule_id = ''d'', rule_name = ''D'', rule_type = CLAUSE_CHECK, aiPrompt = ''p'',
         rule_severity = HIGH, preferredLanguage = Some ''x'', orderIndex = 3, isActive = True\<rparr>]\<rparr>)
     = ''**CONTRACT TO ANALYZE:**\<newline>\<newline>c\<newline>\<newline>**PLAYBOOK: P**\<newline>Contract Type: NDA\<newline>\<newline>**REVIEW RULES:**\<newline>\<newline>**Rule 1: D** (ID: d)\<newline>Type: CLAUSE_CHECK\<newline>Severity: HIGH\<newline>Instructions: p\<newline>Preferred Language/Format:\<newline>x\<newline>\<newline>**Rule 2: C** (ID: c)\<newline>Type: CLAUSE_CHECK\<newline>Severity: LOW\<newline>Instructions: p\<newline>\<newline>**Rule 3: A** (ID: a)\<newline>Type: CLAUSE_CHECK\<newline>Severity: LOW\<newline>Instructions: p\<newline>\<newline>\<newline>**ANALYSIS INSTRUCTIONS:**\<newline>1. Review the contract against each active rule\<newline>2. Identify specific text that violates or could improve compliance\<newline>3. Provide exact replacement text following legal best practices\<newline>4. Calculate risk score (0-10) considering: liability, enforceability, compliance gaps\<newline>5. Calculate compliance score (0-10) for GDPR, SOC2, and industry standards\<newline>6. Extract key terms and identify missing critical provisions\<newline>\<newline>Analyze thoroughly and provide specific, actionable recommendations.''"
    by code_simp
  moreover from buildAnalysisPrompt_rules [of "''c''" "(\<lparr>playbook_name = ''P'', description = None, contractType = Some ''NDA'', rules =
      [\<lparr>rule_id = ''a'', rule_name = ''A'', rule_type = CLAUSE_CHECK, aiPrompt = ''p'',
         rule_severity = LOW, preferredLanguage = None, orderIndex = 2, isActive = True\<rparr>,
       \<lparr>rule_id = ''b'', rule_name = ''B'', rule_type = CLAUSE_CHECK, aiPrompt = ''p'',
         rule_severity = CRITICAL, preferredLanguage = None, orderIndex = 1, isActive = False\<rparr>,
       \<lparr>rule_id = ''c'', rule_name = ''C'', rule_type = CLAUSE_CHECK, aiPrompt = ''p'',
         rule_severity = LOW, preferredLanguage = None, orderIndex = 1, isActive = True\<rparr>,
       \<lparr>rule_id = ''d'', rule_name = ''D'', rule_type = CLAUSE_CHECK, aiPrompt = ''p'',
         rule_severity = HIGH, preferredLanguage = Some ''x'', orderIndex = 3, isActive = True\<rparr>]\<rparr>)"]
  have "\<exists>rs. buildAnalysisPrompt ''c''
     (\<lparr>playbook_name = ''P'', description = None, contractType = Some ''NDA'', rules =
      [\<lparr>rule_id = ''a'', rule_name = ''A'', rule_type = CLAUSE_CHECK, aiPrompt = ''p'',
         rule_severity = LOW, preferredLanguage = None, orderIndex = 2, isActive = True\<rparr>,
       \<lparr>rule_id = ''b'', rule_name = ''B'', rule_type = CLAUSE_CHECK, aiPrompt = ''p'',
         rule_severity = CRITICAL, preferredLanguage = None, orderIndex = 1, isActive = False\<rparr>,
       \<lparr>rule_id = ''c'', rule_name = ''C'', rule_type = CLAUSE_CHECK, aiPrompt = ''p'',
         rule_severity = LOW, preferredLanguage = None, orderIndex = 1, isActive = True\<rparr>,
       \<lparr>rule_id = ''d'', rule_name = ''D'', rule_type = CLAUSE_CHECK, aiPrompt = ''p'',
         rule_severity = HIGH, preferredLanguage = Some ''x'', orderIndex = 3, isActive = True\<rparr>]\<rparr>)
          = ''**CONTRACT TO ANALYZE:**\<newline>\<newline>'' @ ''c'' @ ''\<newline>\<newline>''
            @ ''**PLAYBOOK: '' @ playbook_name (\<lparr>playbook_name = ''P'', description = None, contractType = Some ''NDA'', rules =
      [\<lparr>rule_id = ''a'', rule_name = ''A'', rule_type = CLAUSE_CHECK, aiPrompt = ''p'',
         rule_severity = LOW, preferredLanguage = None, orderIndex = 2, isActive = True\<rparr>,
       \<lparr>rule_id = ''b'', rule_name = ''B'', rule_type = CLAUSE_CHECK, aiPrompt = ''p'',
         rule_severity = CRITICAL, preferredLanguage = None, orderIndex = 1, isActive = False\<rparr>,
       \<lparr>rule_id = ''c'', rule_name = ''C'', rule_type = CLAUSE_CHECK, aiPrompt = ''p'',
         rule_severity = LOW, preferredLanguage = None, orderIndex = 1, isActive = True\<rparr>,
       \<lparr>rule_id = ''d'', rule_name = ''D'', rule_type = CLAUSE_CHECK, aiPrompt = ''p'',
         rule_severity = HIGH, preferredLanguage = Some ''x'', orderIndex = 3, isActive = True\<rparr>]\<rparr>) @ ''**\<newline>''
            @ (case description (\<lparr>playbook_name = ''P'', description = None, contractType = Some ''NDA'', rules =
      [\<lparr>rule_id = ''a'', rule_name = ''A'', rule_type = CLAUSE_CHECK, aiPrompt = ''p'',
         rule_severity = LOW, preferredLanguage = None, orderIndex = 2, isActive = True\<rparr>,
       \<lparr>rule_id = ''b'', rule_name = ''B'', rule_type = CLAUSE_CHECK, aiPrompt = ''p'',
         rule_severity = CRITICAL, preferredLanguage = None, orderIndex = 1, isActive = False\<rparr>,
       \<lparr>rule_id = ''c'', rule_name = ''C'', rule_type = CLAUSE_CHECK, aiPrompt = ''p'',
         rule_severity = LOW, preferredLanguage = None, orderIndex = 1, isActive = True\<rparr>,
       \<lparr>rule_id = ''d'', rule_name = ''D'', rule_type = CLAUSE_CHECK, aiPrompt = ''p'',
         rule_severity = HIGH, preferredLanguage = Some ''x'', orderIndex = 3, isActive = True\<rparr>]\<rparr>) of
                 None \<Rightarrow> []
               | Some d \<Rightarrow> if d = [] then [] else ''Description: '' @ d @ ''\<newline>'')
            @ (case contractType (\<lparr>playbook_name = ''P'', description = None, contractType = Some ''NDA'', rules =
      [\<lparr>rule_id = ''a'', rule_name = ''A'', rule_type = CLAUSE_CHECK, aiPrompt = ''p'',
         rule_severity = LOW, preferredLanguage = None, orderIndex = 2, isActive = True\<rparr>,
       \<lparr>rule_id = ''b'', rule_name = ''B'', rule_type = CLAUSE_CHECK, aiPrompt = ''p'',
         rule_severity = CRITICAL, preferredLanguage = None, orderIndex = 1, isActive = False\<rparr>,
       \<lparr>rule_id = ''c'', rule_name = ''C'', rule_type = CLAUSE_CHECK, aiPrompt = ''p'',
         rule_severity = LOW, preferredLanguage = None, orderIndex = 1, isActive = True\<rparr>,
       \<lparr>rule_id = ''d'', rule_name = ''D'', rule_type = CLAUSE_CHECK, aiPrompt = ''p'',
         rule_severity = HIGH, preferredLanguage = Some ''x'', orderIndex = 3, isActive = True\<rparr>]\<rparr>) of
                 None \<Rightarrow> []
               | Some c \<Rightarrow> if c = [] then [] else ''Contract Type: '' @ c @ ''\<newline>'')
            @ ''\<newline>**REVIEW RULES:**\<newline>\<newline>''
            @ concat (map (\<lambda>(index, rule).
                ''**Rule '' @ showNat (index + 1) @ '': '' @ rule_name rule
                  @ ''** (ID: '' @ rule_id rule @ '')\<newline>''
                @ ''Type: '' @ showRuleType (rule_type rule) @ ''\<newline>''
                @ ''Severity: '' @ showSeverity (rule_severity rule) @ ''\<newline>''
                @ ''Instructions: '' @ aiPrompt rule @ ''\<newline>''
                @ (case preferredLanguage rule of
                     None \<Rightarrow> []
                   | Some l \<Rightarrow> if l = [] then []
                               else ''Preferred Language/Format:\<newline>'' @ l @ ''\<newline>'')
                @ ''\<newline>'') (enumerate 0 rs))
            @ ''\<newline>**ANALYSIS INSTRUCTIONS:**\<newline>''
            @ ''1. Review the contract against each active rule\<newline>''
            @ ''2. Identify specific text that violates or could improve compliance\<newline>''
            @ ''3. Provide exact replacement text following legal best practices\<newline>''
            @ ''4. Calculate risk score (0-10) considering: liability, enforceability, compliance gaps\<newline>''
            @ ''5. Calculate compliance score (0-10) for GDPR, SOC2, and industry standards\<newline>''
            @ ''6. Extract key terms and identify missing critical provisions\<newline>\<newline>''
            @ ''Analyze thoroughly and provide specific, actionable recommendations.''
      \<and> mset rs =
          {#\<lparr>rule_id = ''a'', rule_name = ''A'', rule_type = CLAUSE_CHECK, aiPrompt = ''p'',
         rule_severity = LOW, preferredLanguage = None, orderIndex = 2, isActive = True\<rparr>,
            \<lparr>rule_id = ''c'', rule_name = ''C'', rule_type = CLAUSE_CHECK, aiPrompt = ''p'',
         rule_severity = LOW, preferredLanguage = None, orderIndex = 1, isActive = True\<rparr>,
            \<lparr>rule_id = ''d'', rule_name = ''D'', rule_type = CLAUSE_CHECK, aiPrompt = ''p'',
         rule_severity = HIGH, preferredLanguage = Some ''x'', orderIndex = 3, isActive = True\<rparr>#}
      \<and> sorted_wrt (\<lambda>a b.
            severityOrder (rule_severity a) < severityOrder (rule_severity b)
            \<or> (severityOrder (rule_severity a) = severityOrder (rule_severity b)
               \<and> orderIndex a \<le> orderIndex b)) rs"
    by simp
  ultimately show ?thesis by (rule conjI)
qed

section \<open>Properties of the matcher\<close>

lemma star_iter_fst_le: "st' \<in> set (star_iter f n st) \<Longrightarrow> fst st \<le> fst st'"
proof (induction n arbitrary: st)
  case 0
  then show ?case by simp
next
  case (Suc n)
  from Suc.prems consider "st' = st"
    | st1 where "st1 \<in> set (f st)" "fst st < fst st1" "st' \<in> set (star_iter f n st1)"
    by (auto split: if_splits)
  then show ?case
  proof cases
    case 1
    then show ?thesis by simp
  next
    case 2
    from Suc.IH [OF 2(3)] 2(2) show ?thesis by simp
  qed
qed

lemma search_from_None: "(\<forall>i. run r s (i, None) = []) \<Longrightarrow> search_from r s i n = None"
  by (induction n arbitrary: i) auto

lemma run_Chr: "run (Chr c) s st = (if fst st < length s \<and> s ! fst st = c then [(Suc (fst st), snd st)] else [])"
  by (simp add: Chr_def)

lemma run_re_json_braces:
  assumes "run re_json s st \<noteq> []"
  shows "\<exists>j. fst st < j \<and> j < length s \<and> s ! fst st = CHR ''{'' \<and> s ! j = CHR ''}''"
proof -
  from assms obtain e where "e \<in> set (run re_json s st)" by (cases "run re_json s st") auto
  then have open_brace: "fst st < length s" "s ! fst st = CHR ''{''"
    and "e \<in> set (concat (map (run (Chr CHR ''}'') s)
           (star_iter (run (Cls (\<lambda>c. True)) s) (length s) (Suc (fst st), snd st))))"
    by (auto simp: re_json_def run_Chr split: if_splits)
  then obtain m where m: "m \<in> set (star_iter (run (Cls (\<lambda>c. True)) s) (length s) (Suc (fst st), snd st))"
    and "e \<in> set (run (Chr CHR ''}'') s m)" by auto
  then have "fst m < length s" "s ! fst m = CHR ''}''"
    by (auto simp: run_Chr split: if_splits)
  moreover from star_iter_fst_le [OF m] have "fst st < fst m" by simp
  ultimately show ?thesis using open_brace by blast
qed

lemma jsonMatch_None:
  assumes "\<not> (\<exists>i j. i < j \<and> j < length s \<and> s ! i = CHR ''{'' \<and> s ! j = CHR ''}'')"
  shows "jsonMatch s = None"
proof -
  have "\<forall>i. run re_json s (i, None) = []"
  proof (intro allI, rule ccontr)
    fix i assume "run re_json s (i, None) \<noteq> []"
    from run_re_json_braces [OF this] assms show False by auto
  qed
  then show ?thesis by (simp add: jsonMatch_def search_def search_from_None)
qed

section \<open>Claims about parsing the response\<close>

lemma ownProp_update:
  "ownProp (AList.update k v al) k' = (if k' = k then v else ownProp al k')"
  by (simp add: ownProp_def update_conv')

lemma map_of_update_other: "k' \<noteq> k \<Longrightarrow> map_of (AList.update k v al) k' = map_of al k'"
  by (simp add: update_conv')

lemma map_of_update_same: "map_of (AList.update k v al) k = Some v"
  by (simp add: update_conv')

lemma or_else_undefined: "or_else JUndefined d = d"
  by (simp add: or_else_def)

lemma parseAIResponse_object:
  assumes "jsonMatch responseText = Some json" "JSON_parse json = Some (JObject kvs)"
    and "truthy (ownProp kvs ''summary'')" "isNumber (ownProp kvs ''riskScore'')"
  shows "parseAIResponse JSON_parse conv responseText =
     (let a1 = AList.update ''changes'' (or_else (ownProp kvs ''changes'') (JArray [])) kvs;
          a2 = AList.update ''missingClauses''
                 (or_else (ownProp a1 ''missingClauses'') (JArray [])) a1;
          a3 = AList.update ''risks'' (or_else (ownProp a2 ''risks'') (JArray [])) a2;
          a4 = AList.update ''keyTerms'' (or_else (ownProp a3 ''keyTerms'') (JArray [])) a3
      in bindE (clampScore conv (ownProp a4 ''riskScore'')) (\<lambda>risk.
           let a5 = AList.update ''riskScore'' risk a4
           in bindE (clampScore conv
                       (or_else (ownProp a5 ''complianceScore'') (JNumber (Fin 5))))
                (\<lambda>compliance.
                   Inr (JObject (AList.update ''complianceScore'' compliance a5)))))"
  using assms by (simp add: parseAIResponse_def bindE_def)

lemma parseAIResponse_Inr_object:
  assumes "jsonMatch responseText = Some json" "JSON_parse json = Some analysis"
    and "parseAIResponse JSON_parse conv responseText = Inr result"
  shows "\<exists>kvs. analysis = JObject kvs \<and> truthy (ownProp kvs ''summary'')
           \<and> isNumber (ownProp kvs ''riskScore'')"
  using assms
  by (cases analysis) (auto simp: parseAIResponse_def bindE_def split: if_splits)

lemma parseAIResponse_defaults:
  assumes "jsonMatch responseText = Some json" "JSON_parse json = Some (JObject kvs)"
    and "parseAIResponse JSON_parse conv responseText = Inr result"
    and "k \<in> {''changes'', ''missingClauses'', ''risks'', ''keyTerms''}"
    and "map_of kvs k = None"
  shows "\<exists>res. result = JObject res \<and> map_of res k = Some (JArray [])"
proof -
  from parseAIResponse_Inr_object [OF assms(1,2,3)]
  have t: "truthy (ownProp kvs ''summary'')" "isNumber (ownProp kvs ''riskScore'')" by auto
  define a1 where "a1 = AList.update ''changes'' (or_else (ownProp kvs ''changes'') (JArray [])) kvs"
  define a2 where "a2 = AList.update ''missingClauses''
                 (or_else (ownProp a1 ''missingClauses'') (JArray [])) a1"
  define a3 where "a3 = AList.update ''risks'' (or_else (ownProp a2 ''risks'') (JArray [])) a2"
  define a4 where "a4 = AList.update ''keyTerms'' (or_else (ownProp a3 ''keyTerms'') (JArray [])) a3"
  have "parseAIResponse JSON_parse conv responseText =
      bindE (clampScore conv (ownProp a4 ''riskScore'')) (\<lambda>risk.
        bindE (clampScore conv
                 (or_else (ownProp (AList.update ''riskScore'' risk a4) ''complianceScore'')
                    (JNumber (Fin 5))))
          (\<lambda>compliance. Inr (JObject (AList.update ''complianceScore'' compliance
              (AList.update ''riskScore'' risk a4)))))"
    using parseAIResponse_object [where JSON_parse = JSON_parse and conv = conv, OF assms(1,2) t]
    by (simp add: Let_def a1_def a2_def a3_def a4_def)
  with assms(3) obtain risk compliance where r:
    "result = JObject (AList.update ''complianceScore'' compliance
       (AList.update ''riskScore'' risk a4))"
    by (auto simp: bindE_def split: sum.splits)
  have k1: "map_of kvs ''changes'' = None \<Longrightarrow> map_of a4 ''changes'' = Some (JArray [])"
    by (simp add: a4_def a3_def a2_def a1_def update_conv' ownProp_def or_else_def)
  have k2: "map_of kvs ''missingClauses'' = None
      \<Longrightarrow> map_of a4 ''missingClauses'' = Some (JArray [])"
    by (simp add: a4_def a3_def a2_def a1_def update_conv' ownProp_def or_else_def)
  have k3: "map_of kvs ''risks'' = None \<Longrightarrow> map_of a4 ''risks'' = Some (JArray [])"
    by (simp add: a4_def a3_def a2_def a1_def update_conv' ownProp_def or_else_def)
  have k4: "map_of kvs ''keyTerms'' = None \<Longrightarrow> map_of a4 ''keyTerms'' = Some (JArray [])"
    by (simp add: a4_def a3_def a2_def a1_def update_conv' ownProp_def or_else_def)
  from assms(4,5) k1 k2 k3 k4 have "map_of a4 k = Some (JArray [])"
    by blast
  moreover from assms(4) have "k \<noteq> ''riskScore''" "k \<noteq> ''complianceScore''"
    by auto
  ultimately show ?thesis
    using r by (simp add: update_conv')
qed

text \<open>
  C3. \<open>parseAIResponse\<close> throws when the response text holds no opening brace with a
  closing brace after it, when \<open>JSON.parse\<close> rejects the extracted text, and when the
  extracted object has no \<open>summary\<close> or its \<open>riskScore\<close> is not a number; when it succeeds,
  each of \<open>changes\<close>, \<open>missingClauses\<close>, \<open>risks\<close> and \<open>keyTerms\<close> that the parsed object
  lacks is the empty array in the result.
\<close>

theorem parseAIResponse_errors_and_defaults:
  "(\<not> (\<exists>i j. i < j \<and> j < length responseText
          \<and> responseText ! i = CHR ''{'' \<and> responseText ! j = CHR ''}'')
      \<longrightarrow> parseAIResponse JSON_parse conv responseText = Inl NoJSONFound)
   \<and> (jsonMatch responseText = Some json \<and> JSON_parse json = None
      \<longrightarrow> parseAIResponse JSON_parse conv responseText = Inl JSONSyntaxError)
   \<and> (jsonMatch responseText = Some json \<and> JSON_parse json = Some (JObject kvs)
        \<and> (map_of kvs ''summary'' = None \<or> \<not> isNumber (ownProp kvs ''riskScore''))
      \<longrightarrow> parseAIResponse JSON_parse conv responseText = Inl InvalidStructure)
   \<and> (jsonMatch responseText = Some json \<and> JSON_parse json = Some analysis
        \<and> parseAIResponse JSON_parse conv responseText = Inr result
      \<longrightarrow> (\<exists>kvs res. analysis = JObject kvs \<and> result = JObject res
            \<and> (\<forall>k\<in>{''changes'', ''missingClauses'', ''risks'', ''keyTerms''}.
                  map_of kvs k = None \<longrightarrow> map_of res k = Some (JArray []))))"
proof (intro conjI impI)
  assume "\<not> (\<exists>i j. i < j \<and> j < length responseText
          \<and> responseText ! i = CHR ''{'' \<and> responseText ! j = CHR ''}'')"
  from jsonMatch_None [OF this]
  show "parseAIResponse JSON_parse conv responseText = Inl NoJSONFound"
    by (simp add: parseAIResponse_def)
next
  assume "jsonMatch responseText = Some json \<and> JSON_parse json = None"
  then show "parseAIResponse JSON_parse conv responseText = Inl JSONSyntaxError"
    by (simp add: parseAIResponse_def)
next
  assume "jsonMatch responseText = Some json \<and> JSON_parse json = Some (JObject kvs)
        \<and> (map_of kvs ''summary'' = None \<or> \<not> isNumber (ownProp kvs ''riskScore''))"
  then show "parseAIResponse JSON_parse conv responseText = Inl InvalidStructure"
    by (auto simp: parseAIResponse_def bindE_def ownProp_def)
next
  assume a: "jsonMatch responseText = Some json \<and> JSON_parse json = Some analysis
        \<and> parseAIResponse JSON_parse conv responseText = Inr result"
  then obtain kvs where kvs: "analysis = JObject kvs"
    using parseAIResponse_Inr_object by blast
  from a kvs have b: "jsonMatch responseText = Some json" "JSON_parse json = Some (JObject kvs)"
    "parseAIResponse JSON_parse conv responseText = Inr result" by simp_all
  from a kvs obtain res where res: "result = JObject res"
    using parseAIResponse_defaults [OF b, of "''changes''"]
      parseAIResponse_object [where JSON_parse = JSON_parse and conv = conv, OF b(1,2)]
      parseAIResponse_Inr_object [OF b]
    by (auto simp: Let_def bindE_def split: sum.splits)
  have "\<forall>k\<in>{''changes'', ''missingClauses'', ''risks'', ''keyTerms''}.
          map_of kvs k = None \<longrightarrow> map_of res k = Some (JArray [])"
  proof (intro ballI impI)
    fix k assume "k \<in> {''changes'', ''missingClauses'', ''risks'', ''keyTerms''}"
      and "map_of kvs k = None"
    from parseAIResponse_defaults [OF b this] res show "map_of res k = Some (JArray [])"
      by simp
  qed
  with kvs res show "\<exists>kvs res. analysis = JObject kvs \<and> result = JObject res
            \<and> (\<forall>k\<in>{''changes'', ''missingClauses'', ''risks'', ''keyTerms''}.
                  map_of kvs k = None \<longrightarrow> map_of res k = Some (JArray []))"
    by blast
qed

theorem parseAIResponse_errors_and_defaults_witness:
  \<open>parseAIResponse (\<lambda>s. None) (\<lambda>v. Inr NaN) ''no'' = Inl NoJSONFound
   \<and> jsonMatch ''see {x} here'' = Some ''{x}''
   \<and> parseAIResponse (\<lambda>s. None) (\<lambda>v. Inr NaN) ''see {x} here'' = Inl JSONSyntaxError
   \<and> parseAIResponse
        (\<lambda>s. if s = ''{"riskScore":1}'' then Some (JObject [(''riskScore'', JNumber (Fin 1))])
             else None)
        (\<lambda>v. Inr NaN) ''{"riskScore":1}'' = Inl InvalidStructure
   \<and> (\<exists>res. parseAIResponse
        (\<lambda>s. if s = ''{"summary":"s","riskScore":5}''
             then Some (JObject [(''summary'', JString ''s''), (''riskScore'', JNumber (Fin 5))])
             else None)
        (\<lambda>v. Inr NaN) ''{"summary":"s","riskScore":5}'' = Inr (JObject res)
      \<and> map_of res ''changes'' = Some (JArray [])
      \<and> map_of res ''missingClauses'' = Some (JArray [])
      \<and> map_of res ''risks'' = Some (JArray [])
      \<and> map_of res ''keyTerms'' = Some (JArray []))\<close>
proof -
  let ?conv = "\<lambda>v :: jsval. (Inr NaN :: parse_error + jsnum)"
  let ?none = "\<lambda>s :: string. (None :: jsval option)"
  let ?p3 = \<open>\<lambda>s. if s = ''{"riskScore":1}'' then Some (JObject [(''riskScore'', JNumber (Fin 1))])
             else None\<close>
  let ?p4 = \<open>\<lambda>s. if s = ''{"summary":"s","riskScore":5}''
             then Some (JObject [(''summary'', JString ''s''), (''riskScore'', JNumber (Fin 5))])
             else None\<close>
  let ?kvs4 = "[(''summary'', JString ''s''), (''riskScore'', JNumber (Fin 5))]"
  have n: "\<not> (\<exists>i j. i < j \<and> j < length ''no'' \<and> ''no'' ! i = CHR ''{'' \<and> ''no'' ! j = CHR ''}'')"
    by (auto simp: less_Suc_eq nth_Cons')
  have m2: "jsonMatch ''see {x} here'' = Some ''{x}''" by code_simp
  have m3: \<open>jsonMatch ''{"riskScore":1}'' = Some ''{"riskScore":1}''\<close> by code_simp
  have m4: \<open>jsonMatch ''{"summary":"s","riskScore":5}'' = Some ''{"summary":"s","riskScore":5}''\<close>
    by code_simp
  have r4: \<open>parseAIResponse ?p4 ?conv ''{"summary":"s","riskScore":5}''
      = Inr (JObject [(''summary'', JString ''s''), (''riskScore'', JNumber (Fin 5)),
          (''changes'', JArray []), (''missingClauses'', JArray []), (''risks'', JArray []),
          (''keyTerms'', JArray []), (''complianceScore'', JNumber (Fin 5))])\<close>
    by code_simp
  have c1: "parseAIResponse ?none ?conv ''no'' = Inl NoJSONFound"
    using parseAIResponse_errors_and_defaults [of "''no''" ?none ?conv] n by blast
  have c2: "parseAIResponse ?none ?conv ''see {x} here'' = Inl JSONSyntaxError"
    using parseAIResponse_errors_and_defaults [of "''see {x} here''" ?none ?conv "''{x}''"] m2
    by simp
  have c3: \<open>parseAIResponse ?p3 ?conv ''{"riskScore":1}'' = Inl InvalidStructure\<close>
    using parseAIResponse_errors_and_defaults [of \<open>''{"riskScore":1}''\<close> ?p3 ?conv
        \<open>''{"riskScore":1}''\<close> "[(''riskScore'', JNumber (Fin 1))]"] m3
    by simp
  have c4: \<open>\<exists>res. parseAIResponse ?p4 ?conv ''{"summary":"s","riskScore":5}'' = Inr (JObject res)
      \<and> map_of res ''changes'' = Some (JArray [])
      \<and> map_of res ''missingClauses'' = Some (JArray [])
      \<and> map_of res ''risks'' = Some (JArray [])
      \<and> map_of res ''keyTerms'' = Some (JArray [])\<close>
    using parseAIResponse_errors_and_defaults [of \<open>''{"summary":"s","riskScore":5}''\<close> ?p4 ?conv
        \<open>''{"summary":"s","riskScore":5}''\<close> _ "JObject ?kvs4"
        \<open>JObject [(''summary'', JString ''s''), (''riskScore'', JNumber (Fin 5)),
          (''changes'', JArray []), (''missingClauses'', JArray []), (''risks'', JArray []),
          (''keyTerms'', JArray []), (''complianceScore'', JNumber (Fin 5))]\<close>] m4 r4
    by simp
  from c1 m2 c2 c3 c4 show ?thesis by blast
qed

text \<open>
  C4. The claim: the \<open>riskScore\<close> and the \<open>complianceScore\<close> of a parsed response lie in
  \<open>[0, 10]\<close>, a score already in \<open>[0, 10]\<close> is returned unchanged, and a missing
  \<open>complianceScore\<close> becomes 5. The code takes the default with \<open>||\<close>, which also replaces
  the score 0: a response with \<open>riskScore\<close> 0 and \<open>complianceScore\<close> 0 comes back with
  \<open>riskScore\<close> 0 and \<open>complianceScore\<close> 5.
\<close>

theorem parseAIResponse_compliance_zero_becomes_five:
  \<open>parseAIResponse
     (\<lambda>s. if s = ''{"summary":"s","riskScore":0,"complianceScore":0}''
          then Some (JObject [(''summary'', JString ''s''), (''riskScore'', JNumber (Fin 0)),
                 (''complianceScore'', JNumber (Fin 0))])
          else None)
     (\<lambda>v. Inr NaN)
     ''{"summary":"s","riskScore":0,"complianceScore":0}''
   = Inr (JObject [(''summary'', JString ''s''), (''riskScore'', JNumber (Fin 0)),
       (''complianceScore'', JNumber (Fin 5)), (''changes'', JArray []),
       (''missingClauses'', JArray []), (''risks'', JArray []), (''keyTerms'', JArray [])])\<close>
  by code_simp

theorem parseAIResponse_compliance_zero_becomes_five_witness:
  \<open>\<exists>res. parseAIResponse
     (\<lambda>s. if s = ''{"summary":"s","riskScore":0,"complianceScore":0}''
          then Some (JObject [(''summary'', JString ''s''), (''riskScore'', JNumber (Fin 0)),
                 (''complianceScore'', JNumber (Fin 0))])
          else None)
     (\<lambda>v. Inr NaN)
     ''{"summary":"s","riskScore":0,"complianceScore":0}'' = Inr (JObject res)
   \<and> map_of res ''riskScore'' = Some (JNumber (Fin 0))
   \<and> map_of res ''complianceScore'' = Some (JNumber (Fin 5))\<close>
  using parseAIResponse_compliance_zero_becomes_five by simp

section \<open>Removing tags\<close>

text \<open>A greedy star over a character class stops, first, after the longest run of the
  class, and then after each shorter one.\<close>

lemma star_iter_Cls:
  "length s - i \<le> n \<Longrightarrow>
     star_iter (run (Cls P) s) n (i, c)
       = map (\<lambda>j. (j, c)) (rev [i ..< Suc (i + length (takeWhile P (drop i s)))])"
proof (induction n arbitrary: i)
  case 0
  then have "drop i s = []" by simp
  then show ?case by simp
next
  case (Suc n)
  show ?case
  proof (cases "i < length s \<and> P (s ! i)")
    case True
    then have d: "drop i s = s ! i # drop (Suc i) s" by (simp add: Cons_nth_drop_Suc)
    define k where "k = length (takeWhile P (drop (Suc i) s))"
    from d True have tk: "length (takeWhile P (drop i s)) = Suc k" by (simp add: k_def)
    from Suc.prems have "length s - Suc i \<le> n" by simp
    from Suc.IH [OF this]
    have ih: "star_iter (run (Cls P) s) n (Suc i, c)
        = map (\<lambda>j. (j, c)) (rev [Suc i ..< Suc (Suc i + k)])" by (simp only: k_def)
    have "run (Cls P) s (i, c) = [(Suc i, c)]" using True by simp
    then have "star_iter (run (Cls P) s) (Suc n) (i, c)
        = star_iter (run (Cls P) s) n (Suc i, c) @ [(i, c)]" by simp
    also have "\<dots> = map (\<lambda>j. (j, c)) (rev [Suc i ..< Suc (Suc i + k)] @ [i])"
      by (simp only: ih) simp
    also have "rev [Suc i ..< Suc (Suc i + k)] @ [i] = rev [i ..< Suc (Suc i + k)]"
      by (simp add: upt_conv_Cons [of i])
    finally show ?thesis by (simp only: tk) simp
  next
    case False
    then have "takeWhile P (drop i s) = []"
      by (cases "i < length s") (simp_all add: Cons_nth_drop_Suc [symmetric])
    with False show ?thesis by auto
  qed
qed

lemma run_Star_Cls:
  "run (Star (Cls P)) s (i, c)
     = map (\<lambda>j. (j, c)) (rev [i ..< Suc (i + length (takeWhile P (drop i s)))])"
  by (simp add: star_iter_Cls)

lemma takeWhile_nth_holds:
  "j < length (takeWhile P xs) \<Longrightarrow> P (xs ! j)"
  by (metis nth_mem set_takeWhileD takeWhile_nth)

lemma concat_map_only_last:
  assumes "\<forall>j. i \<le> j \<and> j < i + k \<longrightarrow> g j = []"
  shows "concat (map g (rev [i ..< Suc (i + k)])) = g (i + k)"
  using assms
proof (induction k)
  case 0
  then show ?case by simp
next
  case (Suc k)
  then show ?case by simp
qed

lemma takeWhile_length_less:
  "length (takeWhile P xs) < length xs \<longleftrightarrow> (\<exists>x\<in>set xs. \<not> P x)"
proof -
  have "length (takeWhile P xs) = length xs \<longleftrightarrow> takeWhile P xs = xs"
    by (metis takeWhile_eq_take take_all_iff order_refl)
  moreover have "length (takeWhile P xs) \<le> length xs"
    by (rule length_takeWhile_le)
  ultimately show ?thesis
    by (auto simp: takeWhile_eq_all_conv)
qed

text \<open>A greedy star over the units other than \<open>d\<close>, then \<open>d\<close>: the match ends after the
  next \<open>d\<close>.\<close>

lemma run_until:
  "run (Seq (Star (Cls (\<lambda>x. x \<noteq> d))) (Chr d)) s (i, c)
     = (if d \<in> set (drop i s)
        then [(Suc (i + length (takeWhile (\<lambda>x. x \<noteq> d) (drop i s))), c)] else [])"
proof -
  define k where "k = length (takeWhile (\<lambda>x. x \<noteq> d) (drop i s))"
  define g where "g = (\<lambda>j. run (Chr d) s (j, c))"
  have early: "\<forall>j. i \<le> j \<and> j < i + k \<longrightarrow> g j = []"
  proof (intro allI impI)
    fix j assume j: "i \<le> j \<and> j < i + k"
    then have a: "j - i < length (takeWhile (\<lambda>x. x \<noteq> d) (drop i s))"
      unfolding k_def by linarith
    then have "drop i s ! (j - i) \<noteq> d" by (rule takeWhile_nth_holds)
    moreover from a have "j - i < length (drop i s)"
      using length_takeWhile_le [of "\<lambda>x. x \<noteq> d" "drop i s"] by linarith
    ultimately have "s ! j \<noteq> d" using j by simp
    then show "g j = []" by (simp add: g_def run_Chr)
  qed
  have "run (Seq (Star (Cls (\<lambda>x. x \<noteq> d))) (Chr d)) s (i, c)
      = concat (map g (rev [i ..< Suc (i + k)]))"
    by (simp only: run.simps(3) run_Star_Cls k_def g_def map_map comp_def)
  also have "\<dots> = g (i + k)" using early by (rule concat_map_only_last)
  also have "\<dots> = (if d \<in> set (drop i s) then [(Suc (i + k), c)] else [])"
  proof (cases "d \<in> set (drop i s)")
    case True
    then have lt: "k < length (drop i s)"
      unfolding k_def takeWhile_length_less by blast
    then have "\<not> (drop i s ! k \<noteq> d)"
      unfolding k_def by (rule nth_length_takeWhile)
    with lt have "i + k < length s" "s ! (i + k) = d" by simp_all
    with True show ?thesis by (simp add: g_def run_Chr)
  next
    case False
    then have "\<not> k < length (drop i s)"
      unfolding k_def takeWhile_length_less by blast
    then have "\<not> i + k < length s" by simp
    with False show ?thesis by (simp add: g_def run_Chr)
  qed
  finally show ?thesis by (simp only: k_def)
qed

lemma run_re_tag:
  "run re_tag s (i, c)
     = (if i < length s \<and> s ! i = CHR ''<'' \<and> CHR ''>'' \<in> set (drop (Suc i) s)
        then [(Suc (Suc i + length (takeWhile (\<lambda>x. x \<noteq> CHR ''>'') (drop (Suc i) s))), c)]
        else [])"
proof -
  have "run re_tag s (i, c)
      = concat (map (run (Seq (Star (Cls (\<lambda>x. x \<noteq> CHR ''>''))) (Chr CHR ''>'')) s)
          (run (Chr CHR ''<'') s (i, c)))"
    by (simp only: re_tag_def run.simps)
  then show ?thesis
    by (simp add: run_Chr run_until del: run.simps)
qed

lemma removeTags_at_tag:
  assumes "i < length s" "s ! i = CHR ''<''" "CHR ''>'' \<in> set (drop (Suc i) s)"
  shows "removeTags (drop i s)
     = removeTags (drop (Suc (Suc i + length (takeWhile (\<lambda>x. x \<noteq> CHR ''>'') (drop (Suc i) s)))) s)"
proof -
  let ?cs = "drop (Suc i) s"
  from assms(1,2) have "drop i s = CHR ''<'' # ?cs"
    using Cons_nth_drop_Suc [of i s] by simp
  with assms(3) have "removeTags (drop i s) = removeTags (tl (dropWhile (\<lambda>x. x \<noteq> CHR ''>'') ?cs))"
    by simp
  also have "tl (dropWhile (\<lambda>x. x \<noteq> CHR ''>'') ?cs)
      = drop (Suc (length (takeWhile (\<lambda>x. x \<noteq> CHR ''>'') ?cs))) ?cs"
    by (simp add: dropWhile_eq_drop tl_drop drop_Suc)
  finally show ?thesis by (simp add: add.commute)
qed

lemma removeTags_no_tag:
  assumes "i < length s" "\<not> (s ! i = CHR ''<'' \<and> CHR ''>'' \<in> set (drop (Suc i) s))"
  shows "removeTags (drop i s) = s ! i # removeTags (drop (Suc i) s)"
proof -
  from assms(1) have "drop i s = s ! i # drop (Suc i) s" by (simp add: Cons_nth_drop_Suc)
  with assms(2) show ?thesis by auto
qed

lemma search_from_re_tag:
  "n = Suc (length s) - pos \<Longrightarrow>
   (case search_from re_tag s pos n of
      None \<Rightarrow> removeTags (drop pos s) = drop pos s
    | Some m \<Rightarrow> pos \<le> fst m \<and> fst m < fst (snd m)
        \<and> removeTags (drop pos s)
            = take (fst m - pos) (drop pos s) @ removeTags (drop (fst (snd m)) s))"
proof (induction n arbitrary: pos)
  case 0
  then have "drop pos s = []" by simp
  then show ?case by simp
next
  case (Suc n)
  show ?case
  proof (cases "pos < length s \<and> s ! pos = CHR ''<'' \<and> CHR ''>'' \<in> set (drop (Suc pos) s)")
    case True
    then show ?thesis
      using removeTags_at_tag [of pos s] by (simp add: run_re_tag del: removeTags.simps)
  next
    case False
    then have r: "run re_tag s (pos, None) = []" by (simp add: run_re_tag)
    show ?thesis
    proof (cases "pos < length s")
      case True
      from Suc.prems have "n = Suc (length s) - Suc pos" by simp
      from Suc.IH [OF this] have ih:
        "case search_from re_tag s (Suc pos) n of
           None \<Rightarrow> removeTags (drop (Suc pos) s) = drop (Suc pos) s
         | Some m \<Rightarrow> Suc pos \<le> fst m \<and> fst m < fst (snd m)
             \<and> removeTags (drop (Suc pos) s)
                = take (fst m - Suc pos) (drop (Suc pos) s) @ removeTags (drop (fst (snd m)) s)" .
      from True False have nt: "removeTags (drop pos s) = s ! pos # removeTags (drop (Suc pos) s)"
        by (intro removeTags_no_tag) auto
      from True have d: "drop pos s = s ! pos # drop (Suc pos) s"
        by (simp add: Cons_nth_drop_Suc)
      show ?thesis
      proof (cases "search_from re_tag s (Suc pos) n")
        case None
        with ih r nt d show ?thesis by (simp del: removeTags.simps)
      next
        case (Some m)
        with ih have m: "Suc pos \<le> fst m" "fst m < fst (snd m)"
          "removeTags (drop (Suc pos) s)
             = take (fst m - Suc pos) (drop (Suc pos) s) @ removeTags (drop (fst (snd m)) s)"
          by simp_all
        from m(1) have "fst m - pos = Suc (fst m - Suc pos)" by simp
        then have "take (fst m - pos) (drop pos s)
            = s ! pos # take (fst m - Suc pos) (drop (Suc pos) s)"
          by (simp only: d take_Suc_Cons)
        with Some r nt m show ?thesis by (simp del: removeTags.simps)
      qed
    next
      case False
      then have "drop pos s = []" by simp
      moreover from False Suc.prems have "n = 0" by simp
      ultimately show ?thesis using r by simp
    qed
  qed
qed

lemma splice_re_tag:
  "splice s [] pos (match_all_from re_tag s pos) = removeTags (drop pos s)"
proof (induction re_tag s pos rule: match_all_from.induct)
  case (1 s pos)
  have sf: "case search re_tag s pos of
      None \<Rightarrow> removeTags (drop pos s) = drop pos s
    | Some m \<Rightarrow> pos \<le> fst m \<and> fst m < fst (snd m)
        \<and> removeTags (drop pos s)
            = take (fst m - pos) (drop pos s) @ removeTags (drop (fst (snd m)) s)"
    unfolding search_def by (rule search_from_re_tag) simp
  show ?case
  proof (cases "search re_tag s pos")
    case None
    with sf show ?thesis by (subst match_all_from.simps) simp
  next
    case (Some m)
    with sf have m: "fst m < fst (snd m)"
      "removeTags (drop pos s)
         = take (fst m - pos) (drop pos s) @ removeTags (drop (fst (snd m)) s)" by simp_all
    from 1 [OF Some] m(1)
    have "splice s [] (fst (snd m)) (match_all_from re_tag s (fst (snd m)))
        = removeTags (drop (fst (snd m)) s)" by simp
    with Some m show ?thesis by (subst match_all_from.simps) simp
  qed
qed

lemma replace_all_re_tag: "replace_all html re_tag [] = removeTags html"
  using splice_re_tag [of html 0] by (simp add: replace_all_def match_all_def)

text \<open>
  C5. For every HTML string, \<open>htmlToLexical\<close> returns a state whose root has exactly one
  child, a paragraph, which has exactly one child, a text node, and the text of that node
  is the input with every substring that runs from a \<open><\<close> up to the next \<open>>\<close> removed.
\<close>

theorem htmlToLexical_strips_tags:
  "\<exists>p t. root_children (root (htmlToLexical html)) = [p]
     \<and> node_type p = ''paragraph'' \<and> node_children p = Some [t]
     \<and> node_type t = ''text'' \<and> node_children t = None
     \<and> node_text t = Some (removeTags html)"
  by (simp add: htmlToLexical_def rootOf_def paragraphNode_def textNode_def
      replace_all_re_tag del: removeTags.simps)

theorem htmlToLexical_strips_tags_witness:
  "\<exists>p t. root_children (root (htmlToLexical ''<p>a<b<c>d</p> < x'')) = [p]
     \<and> node_type p = ''paragraph'' \<and> node_children p = Some [t]
     \<and> node_type t = ''text'' \<and> node_children t = None
     \<and> node_text t = Some ''ad < x''"
proof -
  have "removeTags ''<p>a<b<c>d</p> < x'' = ''ad < x''" by code_simp
  with htmlToLexical_strips_tags [of "''<p>a<b<c>d</p> < x''"] show ?thesis
    by (simp del: removeTags.simps)
qed

section \<open>Matches and their positions\<close>

lemma search_from_Some:
  "search_from r s i n = Some m \<Longrightarrow>
     i \<le> fst m \<and> fst m < i + n \<and> snd m \<in> set (run r s (fst m, None))"
proof (induction n arbitrary: i)
  case 0
  then show ?case by simp
next
  case (Suc n)
  show ?case
  proof (cases "run r s (i, None)")
    case Nil
    with Suc.prems have "search_from r s (Suc i) n = Some m" by simp
    from Suc.IH [OF this] show ?thesis by simp
  next
    case (Cons st sts)
    with Suc.prems have "m = (i, st)" by auto
    with Cons show ?thesis by simp
  qed
qed

lemma search_Some:
  assumes "search r s from = Some m"
  shows "from \<le> fst m" "fst m \<le> length s" "snd m \<in> set (run r s (fst m, None))"
proof -
  from search_from_Some [of r s "from" "Suc (length s) - from" m] assms
  have a: "from \<le> fst m" "fst m < from + (Suc (length s) - from)"
    "snd m \<in> set (run r s (fst m, None))"
    by (simp_all add: search_def)
  from a(1) show "from \<le> fst m" .
  from a(1,2) show "fst m \<le> length s" by linarith
  from a(3) show "snd m \<in> set (run r s (fst m, None))" .
qed

lemma match_all_from_members:
  "m \<in> set (match_all_from r s from) \<Longrightarrow>
     from \<le> fst m \<and> fst m \<le> length s \<and> snd m \<in> set (run r s (fst m, None))"
proof (induction r s "from" rule: match_all_from.induct)
  case (1 r s "from")
  show ?case
  proof (cases "search r s from")
    case None
    with 1(2) show ?thesis by (subst (asm) match_all_from.simps) simp
  next
    case (Some m0)
    let ?next = "if fst m0 < fst (snd m0) then fst (snd m0) else Suc (fst m0)"
    from 1(2) Some have "m = m0 \<or> m \<in> set (match_all_from r s ?next)"
      by (subst (asm) match_all_from.simps) simp
    then show ?thesis
    proof
      assume "m = m0"
      with search_Some [OF Some] show ?thesis by simp
    next
      assume "m \<in> set (match_all_from r s ?next)"
      from 1(1) [OF Some this] search_Some(1) [OF Some] show ?thesis
        by (auto split: if_splits)
    qed
  qed
qed

lemma match_all_from_distinct: "distinct (map fst (match_all_from r s from))"
proof (induction r s "from" rule: match_all_from.induct)
  case (1 r s "from")
  show ?case
  proof (cases "search r s from")
    case None
    then show ?thesis by (subst match_all_from.simps) simp
  next
    case (Some m0)
    let ?next = "if fst m0 < fst (snd m0) then fst (snd m0) else Suc (fst m0)"
    have "fst m0 \<notin> fst ` set (match_all_from r s ?next)"
    proof
      assume "fst m0 \<in> fst ` set (match_all_from r s ?next)"
      then obtain m where "m \<in> set (match_all_from r s ?next)" "fst m = fst m0" by auto
      with match_all_from_members [of m r s ?next] show False
        by (auto split: if_splits)
    qed
    with 1 [OF Some] Some show ?thesis by (subst match_all_from.simps) simp
  qed
qed

section \<open>What the patterns of the key terms match\<close>

lemma substring_append:
  "i \<le> j \<Longrightarrow> j \<le> k \<Longrightarrow> substring s i j @ substring s j k = substring s i k"
proof -
  assume a: "i \<le> j" "j \<le> k"
  have "take (j - i) (drop i s) @ take (k - j) (drop (j - i) (drop i s)) = take ((j - i) + (k - j)) (drop i s)"
    by (simp add: take_add)
  with a show ?thesis by (simp add: substring_def)
qed

lemma substring_Suc:
  "i < length s \<Longrightarrow> substring s i (Suc i) = [s ! i]"
  by (simp add: substring_def take_Suc_conv_app_nth Cons_nth_drop_Suc [symmetric])

lemma substring_self: "substring s i i = []"
  by (simp add: substring_def)

lemma length_substring: "j \<le> length s \<Longrightarrow> length (substring s i j) = j - i"
  by (simp add: substring_def)

lemma occursAt_substring: "i \<le> j \<Longrightarrow> j \<le> length s \<Longrightarrow> occursAt s (substring s i j) i"
  by (simp add: occursAt_def substring_def)

lemma run_Cls_mem:
  "st' \<in> set (run (Cls P) s st) \<longleftrightarrow>
     fst st < length s \<and> P (s ! fst st) \<and> st' = (Suc (fst st), snd st)"
  by auto

lemma run_Seq_mem:
  "st'' \<in> set (run (Seq a b) s st) \<longleftrightarrow> (\<exists>st'\<in>set (run a s st). st'' \<in> set (run b s st'))"
  by auto

text \<open>One or more units of a class.\<close>

lemma run_Plus_Cls:
  assumes "st' \<in> set (run (Plus (Cls P)) s st)"
  shows "snd st' = snd st \<and> fst st < fst st' \<and> fst st' \<le> length s
     \<and> substring s (fst st) (fst st') \<noteq> []
     \<and> list_all P (substring s (fst st) (fst st'))"
proof -
  obtain i c where st: "st = (i, c)" by (cases st)
  define xs where "xs = drop (Suc i) s"
  define k where "k = length (takeWhile P xs)"
  from assms st have a: "i < length s" "P (s ! i)"
    and "st' \<in> set (run (Star (Cls P)) s (Suc i, c))"
    by (auto simp: Plus_def split: if_splits)
  then have "st' \<in> set (map (\<lambda>j. (j, c)) (rev [Suc i ..< Suc (Suc i + k)]))"
    by (simp only: run_Star_Cls k_def xs_def)
  then obtain j where j: "st' = (j, c)" "Suc i \<le> j" "j \<le> Suc i + k" by auto
  have kl: "k \<le> length xs" unfolding k_def by (rule length_takeWhile_le)
  with j a(1) have jl: "j \<le> length s" by (simp add: xs_def)
  have "substring s i j = substring s i (Suc i) @ substring s (Suc i) j"
    using j(2) by (simp add: substring_append)
  also have "substring s i (Suc i) = [s ! i]" using a(1) by (rule substring_Suc)
  also have "substring s (Suc i) j = take (j - Suc i) (takeWhile P xs)"
  proof -
    from j have "j - Suc i \<le> length (takeWhile P xs)" by (simp add: k_def)
    then have "take (j - Suc i) (takeWhile P xs) = take (j - Suc i) xs"
      by (metis takeWhile_eq_take take_take min.absorb1)
    then show ?thesis by (simp add: substring_def xs_def)
  qed
  finally have sub: "substring s i j = s ! i # take (j - Suc i) (takeWhile P xs)" by simp
  have "list_all P (take (j - Suc i) (takeWhile P xs))"
    by (auto simp: list_all_iff dest!: in_set_takeD set_takeWhileD)
  with sub a(2) have "list_all P (substring s i j)" by simp
  with st j jl sub show ?thesis by simp
qed

lemma run_capitalizedWord:
  assumes "st' \<in> set (run capitalizedWord s st)"
  shows "snd st' = snd st \<and> fst st < fst st' \<and> fst st' \<le> length s
     \<and> capitalizedWordText (substring s (fst st) (fst st'))"
proof -
  from assms obtain m where m: "m \<in> set (run (Cls isUpperAZ) s st)"
    and p: "st' \<in> set (run (Plus (Cls isLowerAZ)) s m)"
    unfolding capitalizedWord_def run_Seq_mem by blast
  from m have u: "fst st < length s" "isUpperAZ (s ! fst st)" "m = (Suc (fst st), snd st)"
    unfolding run_Cls_mem by simp_all
  from run_Plus_Cls [OF p] u(3)
  have l: "snd st' = snd st" "Suc (fst st) < fst st'" "fst st' \<le> length s"
    "substring s (Suc (fst st)) (fst st') \<noteq> []"
    "list_all isLowerAZ (substring s (Suc (fst st)) (fst st'))" by simp_all
  have "substring s (fst st) (fst st')
      = substring s (fst st) (Suc (fst st)) @ substring s (Suc (fst st)) (fst st')"
    using l(2) by (simp add: substring_append)
  then have "substring s (fst st) (fst st')
      = s ! fst st # substring s (Suc (fst st)) (fst st')"
    using u(1) by (simp add: substring_Suc)
  with u(2) l show ?thesis by (simp add: capitalizedWordText_def)
qed

text \<open>A property that holds where a star starts, and that each round keeps, holds where
  the star stops.\<close>

lemma star_iter_invariant:
  assumes "st' \<in> set (star_iter f n st)" "I st"
    and "\<And>a b. I a \<Longrightarrow> b \<in> set (f a) \<Longrightarrow> I b"
  shows "I st'"
  using assms(1,2)
proof (induction n arbitrary: st)
  case 0
  then show ?case by simp
next
  case (Suc n)
  from Suc.prems(1) consider "st' = st"
    | st1 where "st1 \<in> set (f st)" "st' \<in> set (star_iter f n st1)"
    by (auto split: if_splits)
  then show ?case
  proof cases
    case 1
    with Suc.prems(2) show ?thesis by simp
  next
    case 2
    from assms(3) [OF Suc.prems(2) 2(1)] have "I st1" .
    from Suc.IH [OF 2(2) this] show ?thesis .
  qed
qed

lemma run_capitalizedPattern:
  assumes "st' \<in> set (run capitalizedPattern s (i, c))"
  shows "i < fst st' \<and> fst st' \<le> length s \<and> capitalizedPhrase (substring s i (fst st'))"
proof -
  let ?round = "Seq (Plus (Cls isWhiteSpace)) capitalizedWord"
  let ?I = "\<lambda>a. i < fst a \<and> fst a \<le> length s \<and> capitalizedPhrase (substring s i (fst a))"
  from assms obtain m1 m2 m3 where m1: "m1 \<in> set (run WordB s (i, c))"
    and m2: "m2 \<in> set (run capitalizedWord s m1)"
    and m3: "m3 \<in> set (run (Star ?round) s m2)"
    and m4: "st' \<in> set (run WordB s m3)"
    unfolding capitalizedPattern_def run_Seq_mem by blast
  from m1 have "m1 = (i, c)" by (simp split: if_splits)
  with run_capitalizedWord [OF m2] have start: "?I m2"
    by (simp add: capitalizedPhrase.one)
  have step: "?I b" if a: "?I a" and b: "b \<in> set (run ?round s a)" for a b
  proof -
    from b obtain w where w: "w \<in> set (run (Plus (Cls isWhiteSpace)) s a)"
      and cw: "b \<in> set (run capitalizedWord s w)"
      unfolding run_Seq_mem by blast
    from run_Plus_Cls [OF w] have ws: "fst a < fst w" "fst w \<le> length s"
      "substring s (fst a) (fst w) \<noteq> []" "list_all isWhiteSpace (substring s (fst a) (fst w))"
      by simp_all
    from run_capitalizedWord [OF cw] have cwt: "fst w < fst b" "fst b \<le> length s"
      "capitalizedWordText (substring s (fst w) (fst b))" by simp_all
    from a ws(1) cwt(1) have "substring s i (fst b)
        = substring s i (fst a) @ substring s (fst a) (fst w) @ substring s (fst w) (fst b)"
      by (simp add: substring_append)
    moreover from a ws cwt have "capitalizedPhrase
        (substring s i (fst a) @ substring s (fst a) (fst w) @ substring s (fst w) (fst b))"
      by (intro capitalizedPhrase.more) simp_all
    ultimately show ?thesis using a ws(1) cwt(1,2) by simp
  qed
  have "?I m3"
  proof (rule star_iter_invariant [of m3 "run ?round s" "length s" m2])
    from m3 show "m3 \<in> set (star_iter (run ?round s) (length s) m2)" by simp
    from start show "?I m2" .
    fix a b assume "?I a" "b \<in> set (run ?round s a)"
    then show "?I b" by (rule step)
  qed
  moreover from m4 have "st' = m3" by (simp split: if_splits)
  ultimately show ?thesis by simp
qed

lemma run_Lit:
  assumes "st' \<in> set (run (Lit w) s st)" "fst st \<le> length s"
  shows "snd st' = snd st \<and> fst st' = fst st + length w \<and> fst st' \<le> length s
     \<and> substring s (fst st) (fst st') = w"
  using assms
proof (induction w arbitrary: st)
  case Nil
  then show ?case by (simp add: substring_self)
next
  case (Cons x xs)
  from Cons.prems(1) obtain m where m: "m \<in> set (run (Chr x) s st)"
    and r: "st' \<in> set (run (Lit xs) s m)"
    unfolding Lit.simps run_Seq_mem by blast
  from m have c: "fst st < length s" "s ! fst st = x" "m = (Suc (fst st), snd st)"
    by (simp_all add: run_Chr split: if_splits)
  from c(1,3) have "fst m \<le> length s" by simp
  from Cons.IH [OF r this] c(3)
  have ih: "snd st' = snd st" "fst st' = Suc (fst st) + length xs" "fst st' \<le> length s"
    "substring s (Suc (fst st)) (fst st') = xs" by auto
  have "substring s (fst st) (fst st')
      = substring s (fst st) (Suc (fst st)) @ substring s (Suc (fst st)) (fst st')"
    using ih(2) by (simp add: substring_append)
  with c ih show ?case by (simp add: substring_Suc)
qed

lemma substring_split_at:
  assumes "i \<le> j"
  shows "s = take i s @ substring s i j @ drop j s"
proof -
  have "take (j - i) (drop i s) @ drop (j - i) (drop i s) = drop i s"
    by (rule append_take_drop_id)
  with assms have "substring s i j @ drop j s = drop i s"
    by (simp add: substring_def add.commute)
  then show ?thesis by simp
qed

lemma run_definedTermsPattern:
  assumes "st' \<in> set (run definedTermsPattern s (i, c))"
  shows "\<exists>t. snd st' = Some t \<and> t \<noteq> [] \<and> CHR 0x22 \<notin> set t \<and> definedIn s t"
proof -
  let ?q = "CHR 0x22"
  from assms obtain m1 m2 m3 m4 where m1: "m1 \<in> set (run (Chr ?q) s (i, c))"
    and m2: "m2 \<in> set (run (Group (Plus (Cls (\<lambda>c. c \<noteq> ?q)))) s m1)"
    and m3: "m3 \<in> set (run (Chr ?q) s m2)"
    and m4: "m4 \<in> set (run (Plus (Cls isWhiteSpace)) s m3)"
    and m5: "st' \<in> set (run (Alt (Lit ''means'') (Lit ''shall mean'')) s m4)"
    unfolding definedTermsPattern_def run_Seq_mem by blast
  from m1 have q1: "i < length s" "s ! i = ?q" "m1 = (Suc i, c)"
    by (simp_all add: run_Chr split: if_splits)
  from m2 obtain g where g: "g \<in> set (run (Plus (Cls (\<lambda>c. c \<noteq> ?q))) s m1)"
    and m2': "m2 = (fst g, Some (take (fst g - fst m1) (drop (fst m1) s)))"
    by auto
  define k where "k = fst g"
  define t where "t = substring s (Suc i) k"
  from run_Plus_Cls [OF g] q1(3) have tk: "Suc i < k" "k \<le> length s" "t \<noteq> []"
    "list_all (\<lambda>c. c \<noteq> ?q) t" by (simp_all add: k_def t_def)
  from m2' q1(3) have m2'': "m2 = (k, Some t)" by (simp add: k_def t_def substring_def)
  from m3 m2'' have q2: "k < length s" "s ! k = ?q" "m3 = (Suc k, Some t)"
    by (simp_all add: run_Chr split: if_splits)
  define l where "l = fst m4"
  define ws where "ws = substring s (Suc k) l"
  from run_Plus_Cls [OF m4] q2(3) have w: "snd m4 = Some t" "Suc k < l" "l \<le> length s"
    "ws \<noteq> []" "list_all isWhiteSpace ws" by (simp_all add: l_def ws_def)
  define j where "j = fst st'"
  from m5 have "st' \<in> set (run (Lit ''means'') s m4) \<or> st' \<in> set (run (Lit ''shall mean'') s m4)"
    by simp
  then obtain wording where wd: "wording = ''means'' \<or> wording = ''shall mean''"
    and lit: "st' \<in> set (run (Lit wording) s m4)" by blast
  from w(3) have "fst m4 \<le> length s" by (simp add: l_def)
  from run_Lit [OF lit this] w(1)
  have e: "snd st' = Some t" "j = l + length wording" "j \<le> length s"
    "substring s l j = wording" by (auto simp: l_def j_def)
  have "substring s i j = substring s i (Suc i) @ substring s (Suc i) k
      @ substring s k (Suc k) @ substring s (Suc k) l @ substring s l j"
    using tk(1) w(2) e(2) by (simp add: substring_append)
  then have "substring s i j = [?q] @ t @ [?q] @ ws @ wording"
    using q1(1,2) q2(1,2) e(4) by (simp add: substring_Suc t_def ws_def)
  moreover have "i \<le> j" using tk(1) w(2) e(2) by simp
  ultimately have "s = take i s @ [?q] @ t @ [?q] @ ws @ wording @ drop j s"
    using substring_split_at [of i j s] by simp
  with w(4,5) wd have "definedIn s t"
    unfolding definedIn_def by blast
  moreover from tk(4) have "?q \<notin> set t" by (auto simp: list_all_iff)
  ultimately show ?thesis using e(1) tk(3) by blast
qed

section \<open>Counting and the set of terms\<close>

text \<open>The count that the table holds for a term, 0 when it has none.\<close>

lemma map_of_countTerm:
  "map_of (countTerm al t) k
     = (if k = t then Some (case map_of al t of None \<Rightarrow> 1 | Some n \<Rightarrow> n + 1) else map_of al k)"
  by (induction al t rule: countTerm.induct) auto

lemma keys_countTerm: "fst ` set (countTerm al t) = insert t (fst ` set al)"
  by (induction al t rule: countTerm.induct) auto

lemma distinct_countTerm:
  "distinct (map fst al) \<Longrightarrow> distinct (map fst (countTerm al t))"
proof (induction al t rule: countTerm.induct)
  case (1 t)
  then show ?case by simp
next
  case (2 k n rest t)
  then show ?case by (auto simp: keys_countTerm)
qed

lemma termCounts_fold:
  "distinct (map fst acc) \<Longrightarrow>
   distinct (map fst (foldl (\<lambda>counts term. if length term > 3 then countTerm counts term else counts) acc ts))
   \<and> (\<forall>t. (case map_of (foldl (\<lambda>counts term. if length term > 3 then countTerm counts term else counts) acc ts) t of None \<Rightarrow> 0 | Some n \<Rightarrow> n)
        = (case map_of acc t of None \<Rightarrow> 0 | Some n \<Rightarrow> n)
          + count_list (filter (\<lambda>t. length t > 3) ts) t)"
proof (induction ts arbitrary: acc)
  case Nil
  then show ?case by simp
next
  case (Cons x xs)
  show ?case
  proof (cases "length x > 3")
    case True
    from Cons.prems have "distinct (map fst (countTerm acc x))" by (rule distinct_countTerm)
    from Cons.IH [OF this] True show ?thesis
      by (auto simp: map_of_countTerm split: option.splits)
  next
    case False
    with Cons.IH [OF Cons.prems] show ?thesis by simp
  qed
qed

lemma termCounts_frequent:
  assumes "(t, n) \<in> set (termCounts ts)" "3 \<le> n"
  shows "3 < length t \<and> 3 \<le> count_list ts t"
proof -
  from termCounts_fold [of "[]" ts]
  have d: "distinct (map fst (termCounts ts))"
    and c: "(case map_of (termCounts ts) t of None \<Rightarrow> 0 | Some n \<Rightarrow> n)
        = count_list (filter (\<lambda>t. length t > 3) ts) t"
    by (simp_all add: termCounts_def)
  from d assms(1) have "map_of (termCounts ts) t = Some n" by simp
  with c assms(2) have f: "3 \<le> count_list (filter (\<lambda>t. length t > 3) ts) t" by simp
  have "count_list (filter P xs) x \<le> count_list xs x" for P and xs :: "string list" and x
    by (induction xs) auto
  with f have "3 \<le> count_list ts t" by (meson order_trans)
  moreover from f have "t \<in> set (filter (\<lambda>t. length t > 3) ts)"
    by (metis count_list_0_iff not_numeral_le_zero)
  ultimately show ?thesis by simp
qed

lemma newSet_fold:
  "distinct acc \<Longrightarrow>
   distinct (foldl (\<lambda>seen x. if x \<in> set seen then seen else seen @ [x]) acc xs)
   \<and> set (foldl (\<lambda>seen x. if x \<in> set seen then seen else seen @ [x]) acc xs) = set acc \<union> set xs"
proof (induction xs arbitrary: acc)
  case Nil
  then show ?case by simp
next
  case (Cons x xs)
  show ?case
  proof (cases "x \<in> set acc")
    case True
    with Cons.IH [OF Cons.prems] show ?thesis by auto
  next
    case False
    with Cons.prems have "distinct (acc @ [x])" by simp
    from Cons.IH [OF this] False show ?thesis by auto
  qed
qed

lemma newSet_props: "distinct (newSet xs)" "set (newSet xs) = set xs"
  using newSet_fold [of "[]" xs] by (simp_all add: newSet_def)

lemma count_list_map:
  "count_list (map f xs) y = length (filter (\<lambda>x. f x = y) xs)"
  by (induction xs) auto

lemma finite_occurrences: "finite {i. occursAt s t i}"
proof -
  have "{i. occursAt s t i} \<subseteq> {..length s}" by (auto simp: occursAt_def)
  then show ?thesis by (rule finite_subset) simp
qed

text \<open>Matches with the same text at different places are as many occurrences of it.\<close>

lemma occurrences_of_matches:
  assumes "distinct (map fst ms)"
    and "\<forall>m\<in>set ms. occursAt s (f m) (fst m)"
    and "n \<le> count_list (map f ms) t"
  shows "n \<le> card {i. occursAt s t i}"
proof -
  let ?same = "filter (\<lambda>m. f m = t) ms"
  from assms(1) have d: "distinct ms" and inj: "inj_on fst (set ms)"
    by (simp_all add: distinct_map)
  have "card (fst ` set ?same) = card (set ?same)"
    by (rule card_image) (rule inj_on_subset [OF inj], auto)
  also have "\<dots> = length ?same"
  proof -
    from d have "distinct ?same" by (rule distinct_filter)
    then show ?thesis by (rule distinct_card)
  qed
  also have "\<dots> = count_list (map f ms) t" by (simp add: count_list_map)
  finally have "n \<le> card (fst ` set ?same)" using assms(3) by simp
  moreover have "fst ` set ?same \<subseteq> {i. occursAt s t i}" using assms(2) by auto
  then have "card (fst ` set ?same) \<le> card {i. occursAt s t i}"
    by (intro card_mono finite_occurrences)
  ultimately show ?thesis by linarith
qed

section \<open>Claims about key terms\<close>

lemma extractKeyTerms_subset:
  assumes "t \<in> set (extractKeyTerms content)"
  shows "(\<exists>m\<in>set (match_all definedTermsPattern content).
            t = (case snd (snd m) of Some t \<Rightarrow> t | None \<Rightarrow> []))
       \<or> (\<exists>n. (t, n) \<in> set (termCounts (map (\<lambda>m. substring content (fst m) (fst (snd m)))
                    (match_all capitalizedPattern content))) \<and> 3 \<le> n)"
proof -
  from assms have "t \<in> set (newSet
      (map (\<lambda>m. case snd (snd m) of Some t \<Rightarrow> t | None \<Rightarrow> [])
           (match_all definedTermsPattern content)
       @ map fst (filter (\<lambda>(term, count). count \<ge> 3)
           (termCounts (map (\<lambda>m. substring content (fst m) (fst (snd m)))
              (match_all capitalizedPattern content))))))"
    unfolding extractKeyTerms_def Let_def by (rule in_set_takeD)
  then show ?thesis
    unfolding newSet_props(2) by auto
qed

text \<open>
  C10. For every content, \<open>extractKeyTerms\<close> returns a list without duplicates of at most
  20 terms, and every term of it either stands in the content between double quotes that
  white space and \<open>means\<close> or \<open>shall mean\<close> follow, or is a capitalized phrase of more than
  3 units that occurs at 3 or more places of the content.
\<close>

theorem extractKeyTerms_terms:
  "distinct (extractKeyTerms content)
   \<and> length (extractKeyTerms content) \<le> 20
   \<and> (\<forall>t\<in>set (extractKeyTerms content).
         definedIn content t
         \<or> (capitalizedPhrase t \<and> 3 < length t \<and> 3 \<le> card {i. occursAt content t i}))"
proof (intro conjI ballI)
  show "distinct (extractKeyTerms content)"
    by (simp add: extractKeyTerms_def Let_def newSet_props(1))
next
  show "length (extractKeyTerms content) \<le> 20"
    by (simp add: extractKeyTerms_def Let_def)
next
  fix t assume "t \<in> set (extractKeyTerms content)"
  let ?text = "\<lambda>m :: rmatch. substring content (fst m) (fst (snd m))"
  let ?ms = "match_all capitalizedPattern content"
  from extractKeyTerms_subset [OF \<open>t \<in> set (extractKeyTerms content)\<close>]
  consider m where "m \<in> set (match_all definedTermsPattern content)"
      "t = (case snd (snd m) of Some t \<Rightarrow> t | None \<Rightarrow> [])"
    | n where "(t, n) \<in> set (termCounts (map ?text ?ms))" "3 \<le> n"
    by blast
  then show "definedIn content t
         \<or> (capitalizedPhrase t \<and> 3 < length t \<and> 3 \<le> card {i. occursAt content t i})"
  proof cases
    case 1
    from 1(1) have "snd m \<in> set (run definedTermsPattern content (fst m, None))"
      using match_all_from_members [of m definedTermsPattern content 0]
      by (simp add: match_all_def)
    from run_definedTermsPattern [OF this] 1(2) show ?thesis by auto
  next
    case 2
    from termCounts_frequent [OF 2] have long: "3 < length t"
      and often: "3 \<le> count_list (map ?text ?ms) t" by simp_all
    have sound: "fst m < fst (snd m) \<and> fst (snd m) \<le> length content
        \<and> capitalizedPhrase (?text m)" if "m \<in> set ?ms" for m
    proof -
      from that have "snd m \<in> set (run capitalizedPattern content (fst m, None))"
        using match_all_from_members [of m capitalizedPattern content 0]
        by (simp add: match_all_def)
      from run_capitalizedPattern [OF this] show ?thesis .
    qed
    from often have "t \<in> set (map ?text ?ms)"
      by (metis count_list_0_iff not_numeral_le_zero)
    then obtain m where "m \<in> set ?ms" "t = ?text m" by auto
    with sound have phrase: "capitalizedPhrase t" by simp
    have "distinct (map fst ?ms)"
      by (simp add: match_all_def match_all_from_distinct)
    moreover have "\<forall>m\<in>set ?ms. occursAt content (?text m) (fst m)"
    proof
      fix m assume "m \<in> set ?ms"
      from sound [OF this] show "occursAt content (?text m) (fst m)"
        by (intro occursAt_substring) simp_all
    qed
    ultimately have "3 \<le> card {i. occursAt content t i}"
      using often by (rule occurrences_of_matches)
    with phrase long show ?thesis by simp
  qed
qed

theorem extractKeyTerms_terms_witness:
  \<open>extractKeyTerms ''"Fee" means cost. Acme pays; Acme bills, Acme audits.'' = [''Fee'', ''Acme'']
   \<and> distinct (extractKeyTerms ''"Fee" means cost. Acme pays; Acme bills, Acme audits.'')
   \<and> length (extractKeyTerms ''"Fee" means cost. Acme pays; Acme bills, Acme audits.'') \<le> 20
   \<and> (definedIn ''"Fee" means cost. Acme pays; Acme bills, Acme audits.'' ''Fee''
      \<or> (capitalizedPhrase ''Fee'' \<and> 3 < length ''Fee''
         \<and> 3 \<le> card {i. occursAt ''"Fee" means cost. Acme pays; Acme bills, Acme audits.'' ''Fee'' i}))
   \<and> (definedIn ''"Fee" means cost. Acme pays; Acme bills, Acme audits.'' ''Acme''
      \<or> (capitalizedPhrase ''Acme'' \<and> 3 < length ''Acme''
         \<and> 3 \<le> card {i. occursAt ''"Fee" means cost. Acme pays; Acme bills, Acme audits.'' ''Acme'' i}))\<close>
proof -
  have e: \<open>extractKeyTerms ''"Fee" means cost. Acme pays; Acme bills, Acme audits.''
      = [''Fee'', ''Acme'']\<close> by code_simp
  from extractKeyTerms_terms [of \<open>''"Fee" means cost. Acme pays; Acme bills, Acme audits.''\<close>]
  show ?thesis unfolding e by simp
qed

section \<open>The rounds of a star\<close>

text \<open>The matcher never moves back and never moves beyond the end of the text.\<close>

lemma run_bounds:
  "st' \<in> set (run r s st) \<Longrightarrow> fst st \<le> fst st' \<and> fst st' \<le> max (fst st) (length s)"
proof (induction r arbitrary: st st')
  case Eps
  then show ?case by simp
next
  case (Cls P)
  then show ?case by (auto split: if_splits)
next
  case (Seq a b)
  from Seq.prems obtain m where "m \<in> set (run a s st)" "st' \<in> set (run b s m)"
    unfolding run_Seq_mem by blast
  from Seq.IH(1) [OF this(1)] Seq.IH(2) [OF this(2)] show ?case by auto
next
  case (Alt a b)
  from Alt.prems have "st' \<in> set (run a s st) \<or> st' \<in> set (run b s st)" by simp
  with Alt.IH show ?case by blast
next
  case (Star a)
  let ?I = "\<lambda>b. fst st \<le> fst b \<and> fst b \<le> max (fst st) (length s)"
  have "?I st'"
  proof (rule star_iter_invariant [of st' "run a s" "length s" st])
    from Star.prems show "st' \<in> set (star_iter (run a s) (length s) st)" by simp
    show "?I st" by simp
    fix x y assume "?I x" "y \<in> set (run a s x)"
    with Star.IH [of y x] show "?I y" by auto
  qed
  then show ?case .
next
  case (Group a)
  from Group.prems obtain g where "g \<in> set (run a s st)" "fst st' = fst g" by auto
  with Group.IH [of g st] show ?case by simp
next
  case WordB
  then show ?case by (auto split: if_splits)
qed

text \<open>The rounds that a star is given are enough: more of them change nothing.\<close>

lemma star_iter_enough:
  assumes "\<And>a b. b \<in> set (f a) \<Longrightarrow> fst b \<le> max (fst a) L"
    and "L - fst st \<le> n"
  shows "star_iter f (Suc n) st = star_iter f n st"
  using assms(2)
proof (induction n arbitrary: st)
  case 0
  have "(if fst st < fst b then star_iter f 0 b else []) = []" if "b \<in> set (f st)" for b
    using assms(1) [OF that] 0 by auto
  then have "concat (map (\<lambda>b. if fst st < fst b then star_iter f 0 b else []) (f st)) = []"
    by simp
  then show ?case by simp
next
  case (Suc n)
  have "(if fst st < fst b then star_iter f (Suc n) b else [])
      = (if fst st < fst b then star_iter f n b else [])" if "b \<in> set (f st)" for b
  proof (cases "fst st < fst b")
    case True
    with Suc.prems have "L - fst b \<le> n" by simp
    from Suc.IH [OF this] True show ?thesis by simp
  next
    case False
    then show ?thesis by simp
  qed
  then have eq: "map (\<lambda>b. if fst st < fst b then star_iter f (Suc n) b else []) (f st)
      = map (\<lambda>b. if fst st < fst b then star_iter f n b else []) (f st)"
    by (intro map_cong) simp_all
  have "star_iter f (Suc (Suc n)) st
      = concat (map (\<lambda>b. if fst st < fst b then star_iter f (Suc n) b else []) (f st)) @ [st]"
    by (rule star_iter.simps(2))
  also have "\<dots> = concat (map (\<lambda>b. if fst st < fst b then star_iter f n b else []) (f st)) @ [st]"
    by (simp only: eq)
  also have "\<dots> = star_iter f (Suc n) st"
    by (rule star_iter.simps(2) [symmetric])
  finally show ?case .
qed

lemma run_Star_more_rounds:
  "star_iter (run a s) (length s + k) st = run (Star a) s st"
proof (induction k)
  case 0
  then show ?case by simp
next
  case (Suc k)
  have "star_iter (run a s) (Suc (length s + k)) st = star_iter (run a s) (length s + k) st"
  proof (rule star_iter_enough [where L = "length s"])
    fix x y assume "y \<in> set (run a s x)"
    from run_bounds [OF this] show "fst y \<le> max (fst x) (length s)" by simp
  next
    show "length s - fst st \<le> length s + k" by simp
  qed
  with Suc show ?case by simp
qed

end
